theory Spec2Isabelle
  imports Main "HOL-Library.AList" "HOL-Library.Multiset"
begin

section \<open>Strings\<close>

text \<open>
  JavaScript strings are modelled as HOL strings; a character stands for a code unit in
  the range 0..255 (ASCII and Latin-1). On that range \<open>\s\<close> of a regular expression
  matches TAB, LF, VT, FF, CR, SPACE and NBSP, and \<open>toLowerCase\<close> maps A-Z and the
  Latin-1 capitals (0xC0-0xDE without the multiplication sign 0xD7) 32 positions up.
\<close>

definition isWhitespace :: "char \<Rightarrow> bool" where
  "isWhitespace c = (of_char c \<in> {9, 10, 11, 12, 13, 32, 160 :: nat})"

definition toLowerCase_char :: "char \<Rightarrow> char" where
  "toLowerCase_char c =
     (let n = of_char c :: nat
      in if (65 \<le> n \<and> n \<le> 90) \<or> (192 \<le> n \<and> n \<le> 222 \<and> n \<noteq> 215)
         then char_of (n + 32) else c)"

definition toLowerCase :: "string \<Rightarrow> string" where
  "toLowerCase s = map toLowerCase_char s"

definition endsWith :: "string \<Rightarrow> string \<Rightarrow> bool" where
  "endsWith s suf = (length suf \<le> length s \<and> drop (length s - length suf) s = suf)"

text \<open>
  The regular expression \<open>/(https?:\/\/[^\s]+)/g\<close>. \<open>url_here\<close> is a match that starts
  at the first character; \<open>linkRegex_test\<close> is \<open>RegExp.prototype.test\<close> on a fresh
  expression (\<open>lastIndex = 0\<close>: the literal is evaluated anew in every call of
  \<open>processMessage\<close>), which tries every start position from left to right.
\<close>

definition nonspace_here :: "string \<Rightarrow> bool" where
  "nonspace_here s = (case s of [] \<Rightarrow> False | c # _ \<Rightarrow> \<not> isWhitespace c)"

definition url_here :: "string \<Rightarrow> bool" where
  "url_here s =
     ((take 8 s = ''https://'' \<and> nonspace_here (drop 8 s)) \<or>
      (take 7 s = ''http://'' \<and> nonspace_here (drop 7 s)))"

fun linkRegex_test :: "string \<Rightarrow> bool" where
  "linkRegex_test [] = False"
| "linkRegex_test (c # cs) = (url_here (c # cs) \<or> linkRegex_test cs)"

text \<open>Decimal rendering of a number by a template literal.\<close>

fun digits :: "nat \<Rightarrow> string" where
  "digits n = (if n < 10 then [char_of (48 + n)]
               else digits (n div 10) @ [char_of (48 + n mod 10)])"

declare digits.simps [simp del]

text \<open>The number a string of decimal digits stands for.\<close>

definition number_of_digits :: "string \<Rightarrow> nat" where
  "number_of_digits s = foldl (\<lambda>a c. 10 * a + (of_char c - 48)) 0 s"

definition int_to_string :: "int \<Rightarrow> string" where
  "int_to_string i = (if i < 0 then CHR ''-'' # digits (nat (- i)) else digits (nat i))"

section \<open>Data model\<close>

text \<open>
  A counter of a stored record is a JavaScript value: absent (\<open>undefined\<close>, a record of an
  older \<open>stats.json\<close>), a number, or \<open>NaN\<close>. Numbers are the integers, and \<open>incr\<close> adds
  1 exactly. The \<open>++\<close> of the source acts on a double, which is exact as long as the
  result stays within the safe integers, from \<open>- 2 ^ 53\<close> to \<open>2 ^ 53\<close>, and rounds beyond
  them (\<open>2 ^ 53\<close> stays \<open>2 ^ 53\<close>). Every statement below that counts increments
  therefore assumes that the counters it counts have that room (\<open>exact_upto\<close>). A number
  is printed with all its digits, as the template literal prints numbers below \<open>10 ^ 21\<close>.
\<close>

datatype jsnum = Undefined | Num int | NaN

fun incr :: "jsnum \<Rightarrow> jsnum" where
  "incr (Num n) = Num (n + 1)"
| "incr Undefined = NaN"
| "incr NaN = NaN"

fun minus_js :: "jsnum \<Rightarrow> jsnum \<Rightarrow> jsnum" where
  "minus_js (Num a) (Num b) = Num (a - b)"
| "minus_js _ _ = NaN"

fun jsnum_to_string :: "jsnum \<Rightarrow> string" where
  "jsnum_to_string Undefined = ''undefined''"
| "jsnum_to_string (Num n) = int_to_string n"
| "jsnum_to_string NaN = ''NaN''"

record userStats =
  username :: "string option"
  messages :: jsnum
  images :: jsnum
  gifs :: jsnum
  videos :: jsnum
  links :: jsnum

datatype category = Messages | Images | Gifs | Videos | Links

text \<open>The property access \<open>userStats[category]\<close>.\<close>

fun field :: "category \<Rightarrow> userStats \<Rightarrow> jsnum" where
  "field Messages r = messages r"
| "field Images r = images r"
| "field Gifs r = gifs r"
| "field Videos r = videos r"
| "field Links r = links r"

text \<open>
  \<open>stats\<close> is an object keyed by user id. User ids are Discord snowflakes (decimal strings
  of 17 or more digits): never an array index and never a property of \<open>Object.prototype\<close>,
  so the object enumerates its keys in the order of their creation. It is an association
  list in that order: \<open>map_of\<close> reads a key, \<open>AList.update\<close> overwrites it in place or
  appends a new one, \<open>AList.map_entry\<close> changes the record of an existing key.
\<close>

type_synonym store = "(string \<times> userStats) list"

record author =
  author_id :: string
  author_username :: string
  author_bot :: bool

record attachment =
  name :: "string option"

record message =
  msg_id :: string
  msg_author :: author
  content :: string
  attachments :: "attachment list"

text \<open>
  The program state: the variable \<open>stats\<close>, the contents of the file \<open>stats.json\<close>
  (the snapshot written last, if any) and the number of writes made so far.
  \<open>fs.writeFileSync\<close> is taken to succeed.
\<close>

record state =
  stats :: store
  statsFile :: "store option"
  saves :: nat

definition saveStats :: "state \<Rightarrow> state" where
  "saveStats st = st\<lparr>statsFile := Some (stats st), saves := saves st + 1\<rparr>"

section \<open>Accumulating one message\<close>

definition repair :: "jsnum \<Rightarrow> jsnum" where
  "repair v = (if v = Undefined then Num 0 else v)"

definition initUserStats :: "message \<Rightarrow> state \<Rightarrow> state" where
  "initUserStats message st =
     (let userId = author_id (msg_author message);
          uname = author_username (msg_author message)
      in case map_of (stats st) userId of
           None \<Rightarrow>
             st\<lparr>stats := AList.update userId
                   \<lparr>username = Some uname, messages = Num 0, images = Num 0,
                    gifs = Num 0, videos = Num 0, links = Num 0\<rparr> (stats st)\<rparr>
         | Some r \<Rightarrow>
             st\<lparr>stats := AList.update userId
                   (r\<lparr>username := Some uname, messages := repair (messages r),
                     images := repair (images r), gifs := repair (gifs r),
                     videos := repair (videos r), links := repair (links r)\<rparr>) (stats st)\<rparr>)"

text \<open>The branch of the \<open>forEach\<close> callback an attachment takes.\<close>

definition classify :: "attachment \<Rightarrow> category option" where
  "classify a =
     (let fileName = (case name a of None \<Rightarrow> '''' | Some n \<Rightarrow> toLowerCase n)
      in if endsWith fileName ''.png'' \<or> endsWith fileName ''.jpg'' \<or> endsWith fileName ''.jpeg''
         then Some Images
         else if endsWith fileName ''.gif'' then Some Gifs
         else if endsWith fileName ''.mp4'' \<or> endsWith fileName ''.mov'' \<or>
                 endsWith fileName ''.avi'' \<or> endsWith fileName ''.wmv''
         then Some Videos
         else None)"

text \<open>\<open>stats[userId].c++\<close> on the record of \<open>userId\<close>.\<close>

fun bump :: "category \<Rightarrow> userStats \<Rightarrow> userStats" where
  "bump Messages r = r\<lparr>messages := incr (messages r)\<rparr>"
| "bump Images r = r\<lparr>images := incr (images r)\<rparr>"
| "bump Gifs r = r\<lparr>gifs := incr (gifs r)\<rparr>"
| "bump Videos r = r\<lparr>videos := incr (videos r)\<rparr>"
| "bump Links r = r\<lparr>links := incr (links r)\<rparr>"

definition increment :: "string \<Rightarrow> category \<Rightarrow> state \<Rightarrow> state" where
  "increment userId c st = st\<lparr>stats := AList.map_entry userId (bump c) (stats st)\<rparr>"

definition count_attachment :: "string \<Rightarrow> state \<Rightarrow> attachment \<Rightarrow> state" where
  "count_attachment userId st a =
     (case classify a of None \<Rightarrow> st | Some c \<Rightarrow> increment userId c st)"

definition processMessage :: "message \<Rightarrow> state \<Rightarrow> state" where
  "processMessage message st =
     (if author_bot (msg_author message) then st
      else
        let st1 = initUserStats message st;
            userId = author_id (msg_author message);
            st2 = increment userId Messages st1;
            st3 = (if length (attachments message) > 0
                   then foldl (count_attachment userId) st2 (attachments message)
                   else st2);
            st4 = (if linkRegex_test (content message) then increment userId Links st3
                   else st3)
        in saveStats st4)"

text \<open>
  Reading the store. A counter that is absent counts as zero; \<open>counter_of\<close> is the count
  of a user in a category and \<open>total\<close> the sum of one category over all users.
  \<open>json_store\<close> is a store without \<open>NaN\<close>: what \<open>JSON.parse\<close> can load.
\<close>

fun cnt :: "jsnum \<Rightarrow> int" where
  "cnt (Num n) = n"
| "cnt Undefined = 0"
| "cnt NaN = 0"

definition counter_of :: "store \<Rightarrow> string \<Rightarrow> category \<Rightarrow> int" where
  "counter_of s userId c = (case map_of s userId of None \<Rightarrow> 0 | Some r \<Rightarrow> cnt (field c r))"

definition total :: "category \<Rightarrow> store \<Rightarrow> int" where
  "total c s = sum_list (map (\<lambda>kv. cnt (field c (snd kv))) s)"

definition json_record :: "userStats \<Rightarrow> bool" where
  "json_record r = (messages r \<noteq> NaN \<and> images r \<noteq> NaN \<and> gifs r \<noteq> NaN \<and>
                    videos r \<noteq> NaN \<and> links r \<noteq> NaN)"

definition json_store :: "store \<Rightarrow> bool" where
  "json_store s = list_all (\<lambda>kv. json_record (snd kv)) s"

fun is_number :: "jsnum \<Rightarrow> bool" where
  "is_number (Num n) = True"
| "is_number Undefined = False"
| "is_number NaN = False"

definition numeric :: "userStats \<Rightarrow> bool" where
  "numeric r = (is_number (messages r) \<and> is_number (images r) \<and> is_number (gifs r) \<and>
                is_number (videos r) \<and> is_number (links r))"

text \<open>
  The words of the specification, to compare the code with. A body contains a link if
  \<open>http://\<close> or \<open>https://\<close> is followed by one or more characters that are not
  whitespace. The extension of a file name is what follows its last dot, and the category
  of an attachment is looked up from the extension of the lower-cased name.
\<close>

definition contains_url :: "string \<Rightarrow> bool" where
  "contains_url s =
     (\<exists>p u q. (s = p @ ''http://'' @ u @ q \<or> s = p @ ''https://'' @ u @ q) \<and>
                u \<noteq> [] \<and> (\<forall>c \<in> set u. \<not> isWhitespace c))"

definition extension :: "string \<Rightarrow> string option" where
  "extension s =
     (if CHR ''.'' \<in> set s then Some (rev (takeWhile (\<lambda>c. c \<noteq> CHR ''.'') (rev s)))
      else None)"

definition category_of_extension :: "string \<Rightarrow> category option" where
  "category_of_extension e =
     (if e \<in> {''png'', ''jpg'', ''jpeg''} then Some Images
      else if e = ''gif'' then Some Gifs
      else if e \<in> {''mp4'', ''mov'', ''avi'', ''wmv''} then Some Videos
      else None)"

definition category_of_attachment :: "attachment \<Rightarrow> category option" where
  "category_of_attachment a =
     (case name a of
        None \<Rightarrow> None
      | Some n \<Rightarrow>
          (case extension (toLowerCase n) of
             None \<Rightarrow> None
           | Some e \<Rightarrow> category_of_extension e))"

definition count_category :: "category \<Rightarrow> attachment list \<Rightarrow> int" where
  "count_category c as = int (length (filter (\<lambda>a. category_of_attachment a = Some c) as))"

text \<open>
  The record of the author of a message, step by step: after \<open>initUserStats\<close>, after one
  attachment, and after the whole of \<open>processMessage\<close>. The argument is the record the
  store held for the author before, if any.
\<close>

definition init_record :: "message \<Rightarrow> userStats option \<Rightarrow> userStats" where
  "init_record m old =
     (case old of
        None \<Rightarrow> \<lparr>username = Some (author_username (msg_author m)), messages = Num 0,
                  images = Num 0, gifs = Num 0, videos = Num 0, links = Num 0\<rparr>
      | Some r \<Rightarrow> r\<lparr>username := Some (author_username (msg_author m)),
                     messages := repair (messages r), images := repair (images r),
                     gifs := repair (gifs r), videos := repair (videos r),
                     links := repair (links r)\<rparr>)"

definition attachment_record :: "userStats \<Rightarrow> attachment \<Rightarrow> userStats" where
  "attachment_record r a = (case classify a of None \<Rightarrow> r | Some c \<Rightarrow> bump c r)"

definition message_record :: "message \<Rightarrow> userStats option \<Rightarrow> userStats" where
  "message_record m old =
     (let r = foldl attachment_record (bump Messages (init_record m old)) (attachments m)
      in if linkRegex_test (content m) then bump Links r else r)"

text \<open>
  Room for exact counting. \<open>exact_upto n d\<close>: a counter that stands at \<open>n\<close> can be
  incremented \<open>d\<close> times and every value on the way is a safe integer. \<open>increments m c\<close>
  is the number of times \<open>processMessage\<close> increments the counter \<open>c\<close> of the author of a
  message, and \<open>room_for m s\<close> says that the five counters of the author have room for
  them. \<open>messages_room d s\<close>: every messages counter of the store has room for \<open>d\<close>
  increments. A safe store has all five counters of every record as safe integers.
\<close>

definition exact_upto :: "int \<Rightarrow> int \<Rightarrow> bool" where
  "exact_upto n d = (- (2 ^ 53) \<le> n \<and> n + d \<le> 2 ^ 53)"



definition messages_room :: "int \<Rightarrow> store \<Rightarrow> bool" where
  "messages_room d s = list_all (\<lambda>kv. exact_upto (cnt (messages (snd kv))) d) s"




section \<open>Backfill\<close>

text \<open>
  \<open>channel.messages.fetch(options)\<close> is the history-fetch collaborator. A channel carries
  its behaviour as a function of the number of calls made before in this run and of the
  options of the call; it answers with a page or with an error.
\<close>

datatype channelType = GuildText | GuildVoice | GuildCategory

record fetchOptions =
  limit :: nat
  before :: "string option"

datatype fetchError = FetchError string

record channel =
  channel_id :: string
  channel_name :: string
  channel_type :: channelType
  messages_fetch :: "nat \<Rightarrow> fetchOptions \<Rightarrow> fetchError + message list"

datatype terminal = Done | Aborted fetchError

text \<open>
  What one run of the \<open>while (true)\<close> loop of a channel did: how it ended, the number of
  fetch calls, the sizes of the pages that were processed, and \<open>fetchedCount\<close>.
\<close>

record channelRun =
  run_terminal :: terminal
  run_calls :: nat
  run_pages :: "nat list"
  run_fetchedCount :: nat

definition fetch_options :: "string option \<Rightarrow> fetchOptions" where
  "fetch_options lastMessageId =
     (case lastMessageId of
        None \<Rightarrow> \<lparr>limit = 100, before = None\<rparr>
      | Some i \<Rightarrow> if i = '''' then \<lparr>limit = 100, before = None\<rparr>
                  else \<lparr>limit = 100, before = Some i\<rparr>)"

definition process_page :: "message list \<Rightarrow> state \<Rightarrow> state" where
  "process_page fetchedMessages st = foldl (\<lambda>s msg. processMessage msg s) st fetchedMessages"

text \<open>
  The loop may run forever (a collaborator that always answers with a full page), so it
  is a partial function: \<open>None\<close> is a run that does not return.
\<close>

partial_function (option) fetch_loop ::
  "channel \<Rightarrow> nat \<Rightarrow> nat list \<Rightarrow> string option \<Rightarrow> nat \<Rightarrow> state \<Rightarrow> (channelRun \<times> state) option"
where
  "fetch_loop ch calls pages lastMessageId fetchedCount st =
     (case messages_fetch ch calls (fetch_options lastMessageId) of
        Inl err \<Rightarrow>
          Some (\<lparr>run_terminal = Aborted err, run_calls = calls + 1, run_pages = pages,
                  run_fetchedCount = fetchedCount\<rparr>, st)
      | Inr fetchedMessages \<Rightarrow>
          if length fetchedMessages = 0
          then Some (\<lparr>run_terminal = Done, run_calls = calls + 1, run_pages = pages,
                       run_fetchedCount = fetchedCount\<rparr>, st)
          else if length fetchedMessages < 100
          then Some (\<lparr>run_terminal = Done, run_calls = calls + 1,
                       run_pages = pages @ [length fetchedMessages],
                       run_fetchedCount = fetchedCount + length fetchedMessages\<rparr>,
                     process_page fetchedMessages st)
          else fetch_loop ch (calls + 1) (pages @ [length fetchedMessages])
                 (Some (msg_id (last fetchedMessages)))
                 (fetchedCount + length fetchedMessages)
                 (process_page fetchedMessages st))"

declare fetch_loop.simps [code]

definition backfillChannel :: "channel \<Rightarrow> state \<Rightarrow> (channelRun \<times> state) option" where
  "backfillChannel ch st = fetch_loop ch 0 [] None 0 st"

text \<open>The \<open>for\<close> loop over \<open>guild.channels.cache\<close>; only text channels are fetched.\<close>

fun backfill_channels :: "channel list \<Rightarrow> state \<Rightarrow> (channelRun list \<times> state) option" where
  "backfill_channels [] st = Some ([], st)"
| "backfill_channels (ch # chs) st =
     (if channel_type ch = GuildText
      then (case backfillChannel ch st of
              None \<Rightarrow> None
            | Some (r, st') \<Rightarrow>
                (case backfill_channels chs st' of
                   None \<Rightarrow> None
                 | Some (rs, st'') \<Rightarrow> Some (r # rs, st'')))
      else backfill_channels chs st)"

record member =
  displayName :: string
  member_username :: string

datatype memberError = MemberError "int option"

text \<open>
  The guild of a message: its channels in the order of \<open>guild.channels.cache\<close>, the member
  cache, the answer of \<open>members.fetch(userId)\<close> (a member, or an error with its \<open>code\<close>),
  and whether \<open>members.fetch()\<close> of all members succeeds.
\<close>

record guild =
  channels :: "channel list"
  members_cache :: "string \<Rightarrow> member option"
  members_fetch :: "string \<Rightarrow> memberError + member"
  members_fetch_all_ok :: bool


section \<open>Leaderboard\<close>

text \<open>
  \<open>Object.entries(stats)\<close> creates one two-element array \<open>[userId, userStats]\<close> per key.
  Arrays are objects: \<open>indexOf\<close> compares them by identity, so each entry carries the
  address it was allocated at. Addresses are handed out in increasing order; \<open>heap\<close> is
  the next free one.
\<close>

record entry =
  entry_ref :: nat
  entry_key :: string
  entry_val :: userStats

fun Object_entries :: "nat \<Rightarrow> store \<Rightarrow> entry list" where
  "Object_entries heap [] = []"
| "Object_entries heap ((k, v) # kvs) =
     \<lparr>entry_ref = heap, entry_key = k, entry_val = v\<rparr> # Object_entries (heap + 1) kvs"

text \<open>
  \<open>Array.prototype.sort\<close> with a comparator is stable, and a comparator result of \<open>NaN\<close>
  counts as \<open>+0\<close>. It is modelled as an insertion sort: an element moves in front of an
  earlier one only if the comparator puts it strictly before. Whenever the comparator
  answers with numbers this is the result of every stable sort (\<open>js_sort_sort_key\<close> below),
  and so that of the engine. With \<open>NaN\<close> among the answers the comparator is not
  consistent, ECMAScript leaves the order to the engine, and an insertion sort is in
  general not what V8 (Node.js) does. The model is used on such entries in one place only,
  the three entries of \<open>drift_store\<close> below, where V8 finds one ascending run and moves
  nothing, as the model does; every other statement about the leaderboard assumes that all
  counters are numbers.
\<close>

definition sortCompare :: "('a \<Rightarrow> 'a \<Rightarrow> jsnum) \<Rightarrow> 'a \<Rightarrow> 'a \<Rightarrow> int" where
  "sortCompare comparefn x y = (case comparefn x y of Num n \<Rightarrow> n | _ \<Rightarrow> 0)"

fun sort_insert :: "('a \<Rightarrow> 'a \<Rightarrow> jsnum) \<Rightarrow> 'a \<Rightarrow> 'a list \<Rightarrow> 'a list" where
  "sort_insert comparefn x [] = [x]"
| "sort_insert comparefn x (y # ys) =
     (if sortCompare comparefn y x < 0 then y # sort_insert comparefn x ys else x # y # ys)"

definition js_sort :: "('a \<Rightarrow> 'a \<Rightarrow> jsnum) \<Rightarrow> 'a list \<Rightarrow> 'a list" where
  "js_sort comparefn xs = foldr (sort_insert comparefn) xs []"

text \<open>The comparator \<open>(a, b) => b[1].c - a[1].c\<close> of the leaderboard of category \<open>c\<close>.\<close>

definition by_count :: "category \<Rightarrow> entry \<Rightarrow> entry \<Rightarrow> jsnum" where
  "by_count c a b = minus_js (field c (entry_val b)) (field c (entry_val a))"

definition leaderboard :: "category \<Rightarrow> entry list \<Rightarrow> entry list" where
  "leaderboard c entries = js_sort (by_count c) entries"

fun indexOf_from :: "int \<Rightarrow> nat list \<Rightarrow> nat \<Rightarrow> int" where
  "indexOf_from i [] x = - 1"
| "indexOf_from i (y # ys) x = (if y = x then i else indexOf_from (i + 1) ys x)"

definition indexOf :: "entry list \<Rightarrow> nat \<Rightarrow> int" where
  "indexOf arr x = indexOf_from 0 (map entry_ref arr) x"

text \<open>The display name of one entry, by the fallback chain of the loop body.\<close>

definition resolve_name :: "guild \<Rightarrow> string \<Rightarrow> userStats \<Rightarrow> string" where
  "resolve_name g userId userStats =
     (let displayName0 = username userStats;
          (mem, displayName1) =
             (case members_cache g userId of
                Some m \<Rightarrow> (Some m, displayName0)
              | None \<Rightarrow>
                  (case members_fetch g userId of
                     Inr m \<Rightarrow> (Some m, displayName0)
                   | Inl (MemberError code) \<Rightarrow>
                       (None, if code = Some 10007 then Some ''Unknown User''
                              else displayName0)));
          displayName2 =
             (case mem of
                Some m \<Rightarrow> Some (if displayName m \<noteq> [] then displayName m
                                else member_username m)
              | None \<Rightarrow> displayName1)
      in case displayName2 of
           None \<Rightarrow> userId
         | Some d \<Rightarrow> if d = [] then userId else d)"

text \<open>
  One line of the list. The rank is \<open>topTen.indexOf([userId, userStats]) + 1\<close>, where the
  array literal is a new object, allocated at \<open>heap\<close>.
\<close>

definition render_line :: "guild \<Rightarrow> category \<Rightarrow> entry list \<Rightarrow> nat \<Rightarrow> entry \<Rightarrow> string" where
  "render_line g c topTen heap e =
     int_to_string (indexOf topTen heap + 1) @ ''. **'' @
     resolve_name g (entry_key e) (entry_val e) @ ''** - `'' @
     jsnum_to_string (field c (entry_val e)) @ ''`'' @ [CHR 0x0A]"

fun render_lines :: "guild \<Rightarrow> category \<Rightarrow> entry list \<Rightarrow> nat \<Rightarrow> entry list \<Rightarrow> string list" where
  "render_lines g c topTen heap [] = []"
| "render_lines g c topTen heap (e # es) =
     render_line g c topTen heap e # render_lines g c topTen (heap + 1) es"

definition getTopTenUsers :: "entry list \<Rightarrow> category \<Rightarrow> guild \<Rightarrow> nat \<Rightarrow> string" where
  "getTopTenUsers board c g heap =
     (let topTen = take 10 board;
          text = concat (render_lines g c topTen heap topTen)
      in if text = [] then ''No data'' else text)"

section \<open>The messageCreate handler\<close>




section \<open>Collaborators of the backfill\<close>

text \<open>
  Modelled from the spec: the history-fetch collaborator (section 6, \<open>fetchPage\<close>) is
  the library call \<open>channel.messages.fetch\<close>, which is not code of this repository. For
  a channel whose history is \<open>hist\<close>, newest message first, it answers with the first
  \<open>limit\<close> messages that are older than the message \<open>before\<close>, or with the newest ones
  if \<open>before\<close> is not given.
\<close>

definition older_than :: "message list \<Rightarrow> string option \<Rightarrow> message list" where
  "older_than hist b =
     (case b of
        None \<Rightarrow> hist
      | Some i \<Rightarrow> drop 1 (dropWhile (\<lambda>m. msg_id m \<noteq> i) hist))"

definition history_fetch :: "message list \<Rightarrow> nat \<Rightarrow> fetchOptions \<Rightarrow> fetchError + message list" where
  "history_fetch hist calls opts = Inr (take (limit opts) (older_than hist (before opts)))"

text \<open>
  A channel whose collaborator answers the successive calls of the loop, from call number
  \<open>calls\<close> and cursor \<open>lastMessageId\<close> on, with the full pages \<open>ps\<close> and then with the
  error \<open>err\<close>.
\<close>

fun fails_after ::
  "channel \<Rightarrow> nat \<Rightarrow> string option \<Rightarrow> message list list \<Rightarrow> fetchError \<Rightarrow> bool" where
  "fails_after ch calls lastMessageId [] err =
     (messages_fetch ch calls (fetch_options lastMessageId) = Inl err)"
| "fails_after ch calls lastMessageId (p # ps) err =
     (messages_fetch ch calls (fetch_options lastMessageId) = Inr p \<and> 100 \<le> length p \<and>
      fails_after ch (calls + 1) (Some (msg_id (last p))) ps err)"

definition bots :: "message list \<Rightarrow> nat" where
  "bots ms = length (filter (\<lambda>m. author_bot (msg_author m)) ms)"


section \<open>Example inputs\<close>

definition alice :: author where
  "alice = \<lparr>author_id = ''100000000000000001'', author_username = ''alice'', author_bot = False\<rparr>"

definition bob :: author where
  "bob = \<lparr>author_id = ''100000000000000002'', author_username = ''bob'', author_bot = False\<rparr>"

definition carol :: author where
  "carol = \<lparr>author_id = ''100000000000000003'', author_username = ''carol'', author_bot = False\<rparr>"

definition robot :: author where
  "robot = \<lparr>author_id = ''100000000000000009'', author_username = ''robot'', author_bot = True\<rparr>"

definition empty_state :: state where
  "empty_state = \<lparr>stats = [], statsFile = None, saves = 0\<rparr>"

text \<open>A record of an older snapshot: three of its counters are missing.\<close>

definition old_state :: state where
  "old_state =
     \<lparr>stats = [(''100000000000000001'',
                \<lparr>username = Some ''al'', messages = Num 7, images = Undefined,
                 gifs = Num 2, videos = Undefined, links = Undefined\<rparr>)],
      statsFile = None, saves = 0\<rparr>"

definition text_message :: "string \<Rightarrow> author \<Rightarrow> string \<Rightarrow> message" where
  "text_message i a body = \<lparr>msg_id = i, msg_author = a, content = body, attachments = []\<rparr>"

definition files_message :: message where
  "files_message =
     \<lparr>msg_id = ''900000000000000001'', msg_author = alice, content = ''four files'',
      attachments = [\<lparr>name = Some ''a.png''\<rparr>, \<lparr>name = Some ''b.gif''\<rparr>,
                     \<lparr>name = Some ''c.mp4''\<rparr>, \<lparr>name = Some ''d.png''\<rparr>]\<rparr>"

text \<open>
  The identifier number \<open>n\<close> in a series of 18-digit snowflakes, and a channel with 250
  messages in its history, the 50 oldest of them written by a bot.
\<close>

definition snowflake :: "nat \<Rightarrow> string" where
  "snowflake n = digits (100000000000000000 + n)"

definition history_250 :: "message list" where
  "history_250 =
     map (\<lambda>n. text_message (snowflake n) (if n < 200 then alice else robot) ''hello'')
       [0..<250]"

definition channel_250 :: channel where
  "channel_250 =
     \<lparr>channel_id = ''200000000000000001'', channel_name = ''general'',
      channel_type = GuildText, messages_fetch = history_fetch history_250\<rparr>"

text \<open>
  A channel whose first page of 100 messages arrives and whose second fetch fails, and a
  channel with a single message.
\<close>

definition full_page :: "message list" where
  "full_page = map (\<lambda>n. text_message (snowflake n) alice ''old'') [0..<100]"

definition failing_channel :: channel where
  "failing_channel =
     \<lparr>channel_id = ''200000000000000002'', channel_name = ''flaky'',
      channel_type = GuildText,
      messages_fetch = (\<lambda>calls opts. if calls = 0 then Inr full_page
                                       else Inl (FetchError ''503''))\<rparr>"

definition short_channel :: channel where
  "short_channel =
     \<lparr>channel_id = ''200000000000000003'', channel_name = ''quiet'',
      channel_type = GuildText,
      messages_fetch = history_fetch [text_message ''300000000000000001'' bob ''hi'']\<rparr>"

text \<open>
  A guild without channels whose member cache is empty and whose member lookups fail with
  an error other than "unknown member", so that the stored usernames are displayed; and
  three stores: two users, three users of whom the second lacks the messages counter, and
  three users of whom the first two are tied.
\<close>

definition plain_guild :: guild where
  "plain_guild =
     \<lparr>channels = [], members_cache = (\<lambda>u. None),
      members_fetch = (\<lambda>u. Inl (MemberError None)), members_fetch_all_ok = True\<rparr>"

definition counts :: "string \<Rightarrow> jsnum \<Rightarrow> userStats" where
  "counts n m =
     \<lparr>username = Some n, messages = m, images = Num 0, gifs = Num 0, videos = Num 0,
      links = Num 0\<rparr>"

definition two_store :: store where
  "two_store =
     [(''100000000000000001'', counts ''alice'' (Num 5)),
      (''100000000000000002'', counts ''bob'' (Num 3))]"

definition drift_store :: store where
  "drift_store =
     [(''100000000000000001'', counts ''alice'' (Num 3)),
      (''100000000000000002'', counts ''bob'' Undefined),
      (''100000000000000003'', counts ''carol'' (Num 5))]"

definition tie_store :: store where
  "tie_store =
     [(''100000000000000001'', counts ''alice'' (Num 5)),
      (''100000000000000002'', counts ''bob'' (Num 5)),
      (''100000000000000003'', counts ''carol'' (Num 3))]"



section \<open>Properties of the string functions\<close>

lemma endsWith_iff: "endsWith s suf \<longleftrightarrow> (\<exists>p. s = p @ suf)"
proof
  assume "endsWith s suf"
  then have "s = take (length s - length suf) s @ suf"
    by (metis append_take_drop_id endsWith_def)
  then show "\<exists>p. s = p @ suf" ..
next
  assume "\<exists>p. s = p @ suf"
  then show "endsWith s suf" by (auto simp: endsWith_def)
qed

lemma extension_append:
  assumes "CHR ''.'' \<notin> set e"
  shows "extension (p @ CHR ''.'' # e) = Some e"
proof -
  from assms have "\<And>x. x \<in> set (rev e) \<Longrightarrow> x \<noteq> CHR ''.''" by auto
  from takeWhile_append2 [of "rev e" "\<lambda>c. c \<noteq> CHR ''.''", OF this]
  have "takeWhile (\<lambda>c. c \<noteq> CHR ''.'') (rev e @ CHR ''.'' # rev p) = rev e"
    by simp
  then show ?thesis by (simp add: extension_def)
qed

lemma extension_Some:
  assumes "extension s = Some e"
  shows "\<exists>p. s = p @ CHR ''.'' # e"
proof -
  from assms have dot: "CHR ''.'' \<in> set (rev s)"
    and e: "e = rev (takeWhile (\<lambda>c. c \<noteq> CHR ''.'') (rev s))"
    by (auto simp: extension_def split: if_splits)
  let ?d = "dropWhile (\<lambda>c. c \<noteq> CHR ''.'') (rev s)"
  from dot have "?d \<noteq> []" by (simp add: dropWhile_eq_Nil_conv)
  then have "hd ?d = CHR ''.''"
    using hd_dropWhile [of "\<lambda>c. c \<noteq> CHR ''.''" "rev s"] by simp
  with \<open>?d \<noteq> []\<close> obtain t where t: "?d = CHR ''.'' # t"
    by (cases ?d) auto
  have "rev s = takeWhile (\<lambda>c. c \<noteq> CHR ''.'') (rev s) @ ?d" by simp
  then have "rev s = rev e @ CHR ''.'' # t" using e t by simp
  then have "rev (rev s) = rev (rev e @ CHR ''.'' # t)" by (rule arg_cong)
  then have "s = rev t @ CHR ''.'' # e" by simp
  then show ?thesis ..
qed

lemma endsWith_extension:
  assumes "CHR ''.'' \<notin> set e"
  shows "endsWith s (CHR ''.'' # e) \<longleftrightarrow> extension s = Some e"
proof
  assume "endsWith s (CHR ''.'' # e)"
  then obtain p where "s = p @ CHR ''.'' # e" unfolding endsWith_iff ..
  then show "extension s = Some e" using assms by (simp add: extension_append)
next
  assume "extension s = Some e"
  then show "endsWith s (CHR ''.'' # e)" unfolding endsWith_iff by (rule extension_Some)
qed

lemma endsWith_Nil: "endsWith [] (c # cs) = False"
  by (simp add: endsWith_def)

lemma classify_eq: "classify a = category_of_attachment a"
proof (cases "name a")
  case None
  then show ?thesis
    by (simp add: classify_def category_of_attachment_def endsWith_Nil)
next
  case (Some n)
  show ?thesis
  proof (cases "extension (toLowerCase n)")
    case None
    then show ?thesis using Some
      by (simp add: classify_def category_of_attachment_def endsWith_extension)
  next
    case (Some e)
    then show ?thesis using \<open>name a = Some n\<close>
      by (simp add: classify_def category_of_attachment_def endsWith_extension
          category_of_extension_def)
  qed
qed

lemma classify_examples:
  "classify \<lparr>name = Some ''HOLIDAY.JPG''\<rparr> = Some Images"
  "classify \<lparr>name = Some ''clip.MoV''\<rparr> = Some Videos"
  "classify \<lparr>name = Some ''dance.Gif''\<rparr> = Some Gifs"
  "classify \<lparr>name = Some ''archive.png.zip''\<rparr> = None"
  "classify \<lparr>name = Some ''png''\<rparr> = None"
  "classify \<lparr>name = None\<rparr> = None"
  by code_simp+

lemma url_here_iff:
  "url_here s \<longleftrightarrow>
     (\<exists>c q. (s = ''http://'' @ c # q \<or> s = ''https://'' @ c # q) \<and> \<not> isWhitespace c)"
proof
  assume "url_here s"
  then consider "take 8 s = ''https://''" "nonspace_here (drop 8 s)"
    | "take 7 s = ''http://''" "nonspace_here (drop 7 s)"
    by (auto simp: url_here_def)
  then show "\<exists>c q. (s = ''http://'' @ c # q \<or> s = ''https://'' @ c # q) \<and> \<not> isWhitespace c"
  proof cases
    case 1
    from 1(2) obtain c q where "drop 8 s = c # q" "\<not> isWhitespace c"
      by (auto simp: nonspace_here_def split: list.splits)
    with 1(1) have "s = ''https://'' @ c # q" by (metis append_take_drop_id)
    with \<open>\<not> isWhitespace c\<close> show ?thesis by blast
  next
    case 2
    from 2(2) obtain c q where "drop 7 s = c # q" "\<not> isWhitespace c"
      by (auto simp: nonspace_here_def split: list.splits)
    with 2(1) have "s = ''http://'' @ c # q" by (metis append_take_drop_id)
    with \<open>\<not> isWhitespace c\<close> show ?thesis by blast
  qed
next
  assume "\<exists>c q. (s = ''http://'' @ c # q \<or> s = ''https://'' @ c # q) \<and> \<not> isWhitespace c"
  then show "url_here s"
    by (auto simp: url_here_def nonspace_here_def)
qed

lemma linkRegex_test_iff: "linkRegex_test s \<longleftrightarrow> (\<exists>p t. s = p @ t \<and> url_here t)"
proof (induction s)
  case Nil
  then show ?case by (simp add: url_here_def nonspace_here_def)
next
  case (Cons c cs)
  show ?case
  proof
    assume "linkRegex_test (c # cs)"
    then consider "url_here (c # cs)" | "linkRegex_test cs" by auto
    then show "\<exists>p t. c # cs = p @ t \<and> url_here t"
    proof cases
      case 1
      then show ?thesis by (metis append_Nil)
    next
      case 2
      with Cons.IH obtain p t where "cs = p @ t" "url_here t" by blast
      then have "c # cs = (c # p) @ t" by simp
      with \<open>url_here t\<close> show ?thesis by blast
    qed
  next
    assume "\<exists>p t. c # cs = p @ t \<and> url_here t"
    then obtain p t where pt: "c # cs = p @ t" "url_here t" by blast
    show "linkRegex_test (c # cs)"
    proof (cases p)
      case Nil
      with pt have "url_here (c # cs)" by simp
      then show ?thesis by simp
    next
      case (Cons a p')
      with pt have "cs = p' @ t" by simp
      with pt(2) Cons.IH show ?thesis by auto
    qed
  qed
qed

lemma contains_url_iff: "contains_url s \<longleftrightarrow> (\<exists>p t. s = p @ t \<and> url_here t)"
proof
  assume "contains_url s"
  then obtain p u q where
    s: "s = p @ ''http://'' @ u @ q \<or> s = p @ ''https://'' @ u @ q"
    and u: "u \<noteq> []" "\<forall>c \<in> set u. \<not> isWhitespace c"
    unfolding contains_url_def by blast
  from u obtain c u' where cu: "u = c # u'" "\<not> isWhitespace c"
    by (cases u) auto
  from s show "\<exists>p t. s = p @ t \<and> url_here t"
  proof
    assume "s = p @ ''http://'' @ u @ q"
    then have "s = p @ (''http://'' @ c # (u' @ q))" using cu by simp
    moreover have "url_here (''http://'' @ c # (u' @ q))"
      unfolding url_here_iff using cu(2) by blast
    ultimately show ?thesis by blast
  next
    assume "s = p @ ''https://'' @ u @ q"
    then have "s = p @ (''https://'' @ c # (u' @ q))" using cu by simp
    moreover have "url_here (''https://'' @ c # (u' @ q))"
      unfolding url_here_iff using cu(2) by blast
    ultimately show ?thesis by blast
  qed
next
  assume "\<exists>p t. s = p @ t \<and> url_here t"
  then obtain p t where s: "s = p @ t" and "url_here t" by blast
  then obtain c q where t: "t = ''http://'' @ c # q \<or> t = ''https://'' @ c # q"
    and c: "\<not> isWhitespace c"
    unfolding url_here_iff by blast
  from t show "contains_url s"
  proof
    assume "t = ''http://'' @ c # q"
    then have "s = p @ ''http://'' @ [c] @ q" using s by simp
    then show ?thesis unfolding contains_url_def using c
      by (intro exI[of _ p] exI[of _ "[c]"] exI[of _ q]) simp
  next
    assume "t = ''https://'' @ c # q"
    then have "s = p @ ''https://'' @ [c] @ q" using s by simp
    then show ?thesis unfolding contains_url_def using c
      by (intro exI[of _ p] exI[of _ "[c]"] exI[of _ q]) simp
  qed
qed

lemma linkRegex_test_contains_url: "linkRegex_test s = contains_url s"
  by (simp add: linkRegex_test_iff contains_url_iff)

section \<open>Properties of the accumulator\<close>

lemma map_of_initUserStats:
  "map_of (stats (initUserStats m st)) =
     (map_of (stats st))(author_id (msg_author m) \<mapsto>
        init_record m (map_of (stats st) (author_id (msg_author m))))"
  by (simp add: initUserStats_def init_record_def Let_def update_conv' split: option.splits)

lemma map_of_increment:
  "map_of (stats (increment u c st)) =
     (map_of (stats st))(u := map_option (bump c) (map_of (stats st) u))"
  by (auto simp: increment_def map_of_map_entry fun_eq_iff split: option.splits)

lemma map_of_count_attachment:
  "map_of (stats (count_attachment u st a)) =
     (map_of (stats st))(u := map_option (\<lambda>r. attachment_record r a) (map_of (stats st) u))"
  by (auto simp: count_attachment_def attachment_record_def map_of_increment fun_eq_iff
      option.map_ident split: option.splits)

lemma map_of_foldl_count_attachment:
  "map_of (stats (foldl (count_attachment u) st as)) =
     (map_of (stats st))(u := map_option (\<lambda>r. foldl attachment_record r as) (map_of (stats st) u))"
proof (induction as arbitrary: st)
  case Nil
  then show ?case by (simp add: option.map_ident)
next
  case (Cons a as)
  show ?case
    by (auto simp: Cons.IH map_of_count_attachment option.map_comp comp_def fun_eq_iff)
qed

lemma stats_saveStats: "stats (saveStats st) = stats st"
  by (simp add: saveStats_def)

lemma map_of_processMessage:
  assumes "\<not> author_bot (msg_author m)"
  shows "map_of (stats (processMessage m st)) =
     (map_of (stats st))(author_id (msg_author m) \<mapsto>
        message_record m (map_of (stats st) (author_id (msg_author m))))"
  using assms
  by (simp add: processMessage_def Let_def stats_saveStats map_of_increment
      map_of_foldl_count_attachment map_of_initUserStats message_record_def)

lemma update_update_same: "AList.update k v (AList.update k v al) = AList.update k v al"
  by (induction al) auto

lemma initUserStats_idem: "initUserStats m (initUserStats m st) = initUserStats m st"
  by (auto simp: initUserStats_def Let_def update_conv' repair_def update_update_same
      split: option.splits)

text \<open>Counters of a record with numbers in all five fields.\<close>

lemma is_number_incr: "is_number v \<Longrightarrow> is_number (incr v)"
  by (cases v) simp_all

lemma cnt_incr: "is_number v \<Longrightarrow> cnt (incr v) = cnt v + 1"
  by (cases v) simp_all

lemma numeric_bump: "numeric r \<Longrightarrow> numeric (bump c r)"
  by (cases c) (simp_all add: numeric_def is_number_incr)

lemma cnt_bump:
  "numeric r \<Longrightarrow> cnt (field c' (bump c r)) = cnt (field c' r) + (if c' = c then 1 else 0)"
  by (cases c; cases c') (simp_all add: numeric_def cnt_incr)



lemma numeric_init_record: "json_record r \<Longrightarrow> numeric (init_record m (Some r))"
  by (cases "messages r"; cases "images r"; cases "gifs r"; cases "videos r"; cases "links r")
     (simp_all add: init_record_def numeric_def json_record_def repair_def)

lemma numeric_init_record_None: "numeric (init_record m None)"
  by (simp add: init_record_def numeric_def)

lemma cnt_repair: "cnt (repair v) = cnt v"
  by (cases v) (simp_all add: repair_def)

lemma cnt_init_record_Some: "cnt (field c (init_record m (Some r))) = cnt (field c r)"
  by (cases c) (simp_all add: init_record_def cnt_repair)

lemma cnt_init_record_None: "cnt (field c (init_record m None)) = 0"
  by (cases c) (simp_all add: init_record_def)

lemma numeric_foldl_attachment:
  "numeric r \<Longrightarrow> numeric (foldl attachment_record r as)"
  by (induction as arbitrary: r)
     (simp_all add: attachment_record_def numeric_bump split: option.splits)

lemma cnt_foldl_attachment:
  "numeric r \<Longrightarrow>
   cnt (field c (foldl attachment_record r as)) =
     cnt (field c r) + int (length (filter (\<lambda>a. classify a = Some c) as))"
proof (induction as arbitrary: r)
  case Nil
  then show ?case by simp
next
  case (Cons a as)
  show ?case
  proof (cases "classify a")
    case None
    then show ?thesis using Cons by (simp add: attachment_record_def)
  next
    case (Some c')
    have "numeric (bump c' r)" using Cons.prems by (rule numeric_bump)
    from Cons.IH [OF this] show ?thesis
      using Some Cons.prems by (simp add: attachment_record_def cnt_bump)
  qed
qed


lemma classify_not_Messages: "classify a \<noteq> Some Messages"
  by (simp add: classify_def Let_def)

lemma classify_not_Links: "classify a \<noteq> Some Links"
  by (simp add: classify_def Let_def)

lemma count_category_Messages: "count_category Messages as = 0"
  using classify_not_Messages by (simp add: count_category_def classify_eq [symmetric])

lemma count_category_Links: "count_category Links as = 0"
  using classify_not_Links by (simp add: count_category_def classify_eq [symmetric])

lemma json_store_lookup: "json_store s \<Longrightarrow> map_of s u = Some r \<Longrightarrow> json_record r"
  using map_of_SomeD [of s u r] by (auto simp: json_store_def list_all_iff)

lemma numeric_init_record_json:
  assumes "json_store s"
  shows "numeric (init_record m (map_of s u))"
proof (cases "map_of s u")
  case None
  then show ?thesis by (simp add: numeric_init_record_None)
next
  case (Some r)
  with assms have "json_record r" by (rule json_store_lookup)
  then show ?thesis using Some by (simp add: numeric_init_record)
qed

lemma cnt_init_record: "cnt (field c (init_record m (map_of s u))) = counter_of s u c"
  by (cases "map_of s u") (simp_all add: counter_of_def cnt_init_record_None cnt_init_record_Some)

text \<open>The counters of the author after a message, from those before.\<close>

lemma cnt_message_record:
  assumes "json_store s"
  shows "cnt (field c (message_record m (map_of s u))) =
           counter_of s u c + (if c = Messages then 1 else 0) + count_category c (attachments m)
           + (if c = Links \<and> contains_url (content m) then 1 else 0)"
proof -
  let ?r0 = "init_record m (map_of s u)"
  let ?r1 = "bump Messages ?r0"
  let ?r2 = "foldl attachment_record ?r1 (attachments m)"
  have n0: "numeric ?r0" using assms by (rule numeric_init_record_json)
  then have n1: "numeric ?r1" by (rule numeric_bump)
  then have n2: "numeric ?r2" by (rule numeric_foldl_attachment)
  have c1: "cnt (field c ?r1) = counter_of s u c + (if c = Messages then 1 else 0)"
    using n0 by (simp add: cnt_bump cnt_init_record del: bump.simps)
  have c2: "cnt (field c ?r2) = cnt (field c ?r1) + count_category c (attachments m)"
    using n1 by (simp add: cnt_foldl_attachment count_category_def classify_eq)
  show ?thesis
  proof (cases "contains_url (content m)")
    case True
    then have "message_record m (map_of s u) = bump Links ?r2"
      by (simp add: message_record_def Let_def linkRegex_test_contains_url)
    moreover have "cnt (field c (bump Links ?r2)) = cnt (field c ?r2) + (if c = Links then 1 else 0)"
      using n2 by (rule cnt_bump)
    ultimately show ?thesis using c1 c2 True by simp
  next
    case False
    then have "message_record m (map_of s u) = ?r2"
      by (simp add: message_record_def Let_def linkRegex_test_contains_url)
    then show ?thesis using c1 c2 False by simp
  qed
qed

lemma counter_of_processMessage:
  assumes "\<not> author_bot (msg_author m)" and "json_store (stats st)"
  shows "counter_of (stats (processMessage m st)) u c =
           counter_of (stats st) u c +
           (if u = author_id (msg_author m)
            then (if c = Messages then 1 else 0) + count_category c (attachments m)
                 + (if c = Links \<and> contains_url (content m) then 1 else 0)
            else 0)"
proof (cases "u = author_id (msg_author m)")
  case True
  have "counter_of (stats (processMessage m st)) u c =
          cnt (field c (message_record m (map_of (stats st) u)))"
    using True assms(1) by (simp add: counter_of_def map_of_processMessage)
  then show ?thesis using True assms(2) by (simp add: cnt_message_record)
next
  case False
  then show ?thesis using assms(1) by (simp add: counter_of_def map_of_processMessage)
qed

section \<open>The accumulator and the claims about it\<close>

text \<open>
  C3: for a stored record, \<open>initUserStats\<close> sets each of the five counters that is
  missing to 0 and leaves every counter that is present as it is, overwrites the username
  with the author's current one, and running it a second time changes nothing more.
\<close>
theorem initUserStats_repairs:
  assumes "map_of (stats st) (author_id (msg_author m)) = Some r"
  shows "\<exists>r'. map_of (stats (initUserStats m st)) (author_id (msg_author m)) = Some r' \<and>
           (\<forall>c. field c r' = (if field c r = Undefined then Num 0 else field c r)) \<and>
           username r' = Some (author_username (msg_author m)) \<and>
           initUserStats m (initUserStats m st) = initUserStats m st"
proof -
  let ?r' = "init_record m (Some r)"
  have "map_of (stats (initUserStats m st)) (author_id (msg_author m)) = Some ?r'"
    using assms by (simp add: map_of_initUserStats)
  moreover have "field c ?r' = (if field c r = Undefined then Num 0 else field c r)" for c
    by (cases c) (simp_all add: init_record_def repair_def)
  moreover have "username ?r' = Some (author_username (msg_author m))"
    by (simp add: init_record_def)
  ultimately show ?thesis using initUserStats_idem by blast
qed

text \<open>The record of the older snapshot, with three counters missing.\<close>
theorem initUserStats_repairs_witness:
  "map_of (stats old_state) (author_id (msg_author (text_message ''1'' alice ''hi''))) =
     Some \<lparr>username = Some ''al'', messages = Num 7, images = Undefined,
           gifs = Num 2, videos = Undefined, links = Undefined\<rparr> \<and>
   stats (initUserStats (text_message ''1'' alice ''hi'') old_state) =
     [(''100000000000000001'',
       \<lparr>username = Some ''alice'', messages = Num 7, images = Num 0,
        gifs = Num 2, videos = Num 0, links = Num 0\<rparr>)] \<and>
   initUserStats (text_message ''1'' alice ''hi'')
     (initUserStats (text_message ''1'' alice ''hi'') old_state) =
   initUserStats (text_message ''1'' alice ''hi'') old_state"
proof -
  have h: "map_of (stats old_state) (author_id (msg_author (text_message ''1'' alice ''hi''))) =
     Some \<lparr>username = Some ''al'', messages = Num 7, images = Undefined,
           gifs = Num 2, videos = Undefined, links = Undefined\<rparr>"
    by (simp add: old_state_def text_message_def alice_def)
  from initUserStats_repairs [OF h]
  have "initUserStats (text_message ''1'' alice ''hi'')
     (initUserStats (text_message ''1'' alice ''hi'') old_state) =
   initUserStats (text_message ''1'' alice ''hi'') old_state" by blast
  moreover have "stats (initUserStats (text_message ''1'' alice ''hi'') old_state) =
     [(''100000000000000001'',
       \<lparr>username = Some ''alice'', messages = Num 7, images = Num 0,
        gifs = Num 2, videos = Num 0, links = Num 0\<rparr>)]"
    by (simp add: initUserStats_def old_state_def text_message_def alice_def repair_def)
  ultimately show ?thesis using h by blast
qed

text \<open>
  C4: a message of an automated author leaves the whole state as it is: the store with
  every record and counter, the file, and the number of writes.
\<close>
theorem processMessage_bot:
  "author_bot (msg_author m) \<Longrightarrow> processMessage m st = st"
  by (simp add: processMessage_def)

theorem processMessage_bot_witness:
  "author_bot (msg_author (text_message ''1'' robot ''beep http://x.y'')) \<and>
   processMessage (text_message ''1'' robot ''beep http://x.y'') old_state = old_state"
  using processMessage_bot [of "text_message ''1'' robot ''beep http://x.y''" old_state]
  by (simp add: text_message_def robot_def)

text \<open>
  C5: a message of a human author without attachments and without a link adds 1 to the
  author's messages counter, which has room for it; the other four counters of the author
  keep their counts, and the record of every other user is untouched.
\<close>
theorem processMessage_plain:
  assumes "\<not> author_bot (msg_author m)" and "attachments m = []"
    and "\<not> contains_url (content m)" and "json_store (stats st)"
    and "exact_upto (counter_of (stats st) (author_id (msg_author m)) Messages) 1"
  shows "counter_of (stats (processMessage m st)) (author_id (msg_author m)) Messages =
           counter_of (stats st) (author_id (msg_author m)) Messages + 1 \<and>
         (\<forall>c. c \<noteq> Messages \<longrightarrow>
            counter_of (stats (processMessage m st)) (author_id (msg_author m)) c =
            counter_of (stats st) (author_id (msg_author m)) c) \<and>
         (\<forall>u. u \<noteq> author_id (msg_author m) \<longrightarrow>
            map_of (stats (processMessage m st)) u = map_of (stats st) u)"
proof -
  have "count_category c (attachments m) = 0" for c
    using assms(2) by (simp add: count_category_def)
  then show ?thesis
    using assms(1,2,3,4) by (simp add: counter_of_processMessage map_of_processMessage)
qed

theorem processMessage_plain_witness:
  "\<not> author_bot (msg_author (text_message ''1'' alice ''hello there'')) \<and>
   attachments (text_message ''1'' alice ''hello there'') = [] \<and>
   \<not> contains_url (content (text_message ''1'' alice ''hello there'')) \<and>
   json_store (stats old_state) \<and>
   exact_upto (counter_of (stats old_state)
     (author_id (msg_author (text_message ''1'' alice ''hello there''))) Messages) 1 \<and>
   counter_of (stats (processMessage (text_message ''1'' alice ''hello there'') old_state))
     ''100000000000000001'' Messages = 8 \<and>
   counter_of (stats (processMessage (text_message ''1'' alice ''hello there'') old_state))
     ''100000000000000001'' Images = counter_of (stats old_state) ''100000000000000001'' Images \<and>
   counter_of (stats (processMessage (text_message ''1'' alice ''hello there'') old_state))
     ''100000000000000001'' Gifs = counter_of (stats old_state) ''100000000000000001'' Gifs \<and>
   counter_of (stats (processMessage (text_message ''1'' alice ''hello there'') old_state))
     ''100000000000000001'' Videos = counter_of (stats old_state) ''100000000000000001'' Videos \<and>
   counter_of (stats (processMessage (text_message ''1'' alice ''hello there'') old_state))
     ''100000000000000001'' Links = counter_of (stats old_state) ''100000000000000001'' Links"
proof -
  have h1: "\<not> author_bot (msg_author (text_message ''1'' alice ''hello there''))"
    by (simp add: text_message_def alice_def)
  have h2: "attachments (text_message ''1'' alice ''hello there'') = []"
    by (simp add: text_message_def)
  have h3: "\<not> contains_url (content (text_message ''1'' alice ''hello there''))"
    by (simp add: linkRegex_test_contains_url [symmetric] text_message_def url_here_def)
  have h4: "json_store (stats old_state)"
    by (simp add: json_store_def json_record_def old_state_def)
  have a: "author_id (msg_author (text_message ''1'' alice ''hello there'')) = ''100000000000000001''"
    by (simp add: text_message_def alice_def)
  have b: "counter_of (stats old_state) ''100000000000000001'' Messages = 7"
    by (simp add: counter_of_def old_state_def)
  have h5: "exact_upto (counter_of (stats old_state)
     (author_id (msg_author (text_message ''1'' alice ''hello there''))) Messages) 1"
    by (simp add: a b exact_upto_def)
  from processMessage_plain [OF h1 h2 h3 h4 h5] show ?thesis
    using h1 h2 h3 h4 h5 by (simp add: a b)
qed


text \<open>
  C6: a message of a human author whose body contains at least one link adds exactly 1
  to the author's links counter, which has room for it, however many links there are.
\<close>
theorem processMessage_link_once:
  assumes "\<not> author_bot (msg_author m)" and "contains_url (content m)"
    and "json_store (stats st)"
    and "exact_upto (counter_of (stats st) (author_id (msg_author m)) Links) 1"
  shows "counter_of (stats (processMessage m st)) (author_id (msg_author m)) Links =
           counter_of (stats st) (author_id (msg_author m)) Links + 1"
  using assms(1,2,3) by (simp add: counter_of_processMessage count_category_Links)

text \<open>A body with two links counts once.\<close>
theorem processMessage_link_once_witness:
  "\<not> author_bot (msg_author (text_message ''1'' alice ''see http://a.b and https://c.d/e''))
   \<and> contains_url (content (text_message ''1'' alice ''see http://a.b and https://c.d/e''))
   \<and> json_store (stats old_state)
   \<and> exact_upto (counter_of (stats old_state)
        (author_id (msg_author (text_message ''1'' alice ''see http://a.b and https://c.d/e'')))
        Links) 1
   \<and> counter_of (stats old_state) ''100000000000000001'' Links = 0
   \<and> counter_of
        (stats (processMessage (text_message ''1'' alice ''see http://a.b and https://c.d/e'')
           old_state))
        ''100000000000000001'' Links = 1"
proof -
  let ?m = "text_message ''1'' alice ''see http://a.b and https://c.d/e''"
  have h1: "\<not> author_bot (msg_author ?m)"
    by (simp add: text_message_def alice_def)
  have h2: "contains_url (content ?m)"
    by (simp add: linkRegex_test_contains_url [symmetric] text_message_def url_here_def
        nonspace_here_def isWhitespace_def)
  have h3: "json_store (stats old_state)"
    by (simp add: json_store_def json_record_def old_state_def)
  have a: "author_id (msg_author ?m) = ''100000000000000001''"
    by (simp add: text_message_def alice_def)
  have b: "counter_of (stats old_state) ''100000000000000001'' Links = 0"
    by (simp add: counter_of_def old_state_def)
  have h4: "exact_upto (counter_of (stats old_state) (author_id (msg_author ?m)) Links) 1"
    by (simp add: a b exact_upto_def)
  from processMessage_link_once [OF h1 h2 h3 h4] show ?thesis
    using h1 h2 h3 h4 by (simp add: a b)
qed

text \<open>
  C7: every attachment of a message of a human author adds 1 to the counter of the
  category of its lower-cased extension, if it has one, and to no other; the attachments
  count one by one, without a cap, and never as a link. The counters have room for the
  increments.
\<close>
theorem processMessage_attachments:
  assumes "\<not> author_bot (msg_author m)" and "json_store (stats st)"
    and "exact_upto (counter_of (stats st) (author_id (msg_author m)) Images)
           (count_category Images (attachments m))"
    and "exact_upto (counter_of (stats st) (author_id (msg_author m)) Gifs)
           (count_category Gifs (attachments m))"
    and "exact_upto (counter_of (stats st) (author_id (msg_author m)) Videos)
           (count_category Videos (attachments m))"
    and "exact_upto (counter_of (stats st) (author_id (msg_author m)) Links) 1"
  shows "counter_of (stats (processMessage m st)) (author_id (msg_author m)) Images =
           counter_of (stats st) (author_id (msg_author m)) Images
           + count_category Images (attachments m) \<and>
         counter_of (stats (processMessage m st)) (author_id (msg_author m)) Gifs =
           counter_of (stats st) (author_id (msg_author m)) Gifs
           + count_category Gifs (attachments m) \<and>
         counter_of (stats (processMessage m st)) (author_id (msg_author m)) Videos =
           counter_of (stats st) (author_id (msg_author m)) Videos
           + count_category Videos (attachments m) \<and>
         counter_of (stats (processMessage m st)) (author_id (msg_author m)) Links =
           counter_of (stats st) (author_id (msg_author m)) Links
           + (if contains_url (content m) then 1 else 0) \<and>
         count_category Images (attachments m) + count_category Gifs (attachments m)
           + count_category Videos (attachments m) \<le> int (length (attachments m))"
proof -
  have "length (filter (\<lambda>a. category_of_attachment a = Some Images) as)
        + length (filter (\<lambda>a. category_of_attachment a = Some Gifs) as)
        + length (filter (\<lambda>a. category_of_attachment a = Some Videos) as) \<le> length as"
    for as :: "attachment list"
    by (induction as) auto
  then have "count_category Images (attachments m) + count_category Gifs (attachments m)
           + count_category Videos (attachments m) \<le> int (length (attachments m))"
    unfolding count_category_def by (metis of_nat_add of_nat_le_iff)
  then show ?thesis
    using assms(1,2) by (simp add: counter_of_processMessage count_category_Links)
qed

text \<open>The attachments a.png, b.gif, c.mp4 and d.png: two images, one gif, one video.\<close>
theorem processMessage_attachments_witness:
  "\<not> author_bot (msg_author files_message) \<and> json_store (stats old_state) \<and>
   exact_upto (counter_of (stats old_state) (author_id (msg_author files_message)) Images)
     (count_category Images (attachments files_message)) \<and>
   exact_upto (counter_of (stats old_state) (author_id (msg_author files_message)) Gifs)
     (count_category Gifs (attachments files_message)) \<and>
   exact_upto (counter_of (stats old_state) (author_id (msg_author files_message)) Videos)
     (count_category Videos (attachments files_message)) \<and>
   exact_upto (counter_of (stats old_state) (author_id (msg_author files_message)) Links) 1 \<and>
   map (\<lambda>a. the (name a)) (attachments files_message) = [''a.png'', ''b.gif'', ''c.mp4'', ''d.png''] \<and>
   counter_of (stats (processMessage files_message old_state)) ''100000000000000001'' Images =
     counter_of (stats old_state) ''100000000000000001'' Images + 2 \<and>
   counter_of (stats (processMessage files_message old_state)) ''100000000000000001'' Gifs =
     counter_of (stats old_state) ''100000000000000001'' Gifs + 1 \<and>
   counter_of (stats (processMessage files_message old_state)) ''100000000000000001'' Videos =
     counter_of (stats old_state) ''100000000000000001'' Videos + 1 \<and>
   counter_of (stats (processMessage files_message old_state)) ''100000000000000001'' Links =
     counter_of (stats old_state) ''100000000000000001'' Links + 0"
proof -
  have h1: "\<not> author_bot (msg_author files_message)"
    by (simp add: files_message_def alice_def)
  have h2: "json_store (stats old_state)"
    by (simp add: json_store_def json_record_def old_state_def)
  have a: "author_id (msg_author files_message) = ''100000000000000001''"
    by (simp add: files_message_def alice_def)
  have n: "map (\<lambda>a. the (name a)) (attachments files_message) = [''a.png'', ''b.gif'', ''c.mp4'', ''d.png'']"
    by (simp add: files_message_def)
  have c: "count_category Images (attachments files_message) = 2"
    "count_category Gifs (attachments files_message) = 1"
    "count_category Videos (attachments files_message) = 1"
    by (simp_all add: count_category_def files_message_def category_of_attachment_def
        category_of_extension_def extension_def toLowerCase_def toLowerCase_char_def)
  have u: "\<not> contains_url (content files_message)"
    by (simp add: linkRegex_test_contains_url [symmetric] files_message_def url_here_def)
  have b: "counter_of (stats old_state) ''100000000000000001'' Images = 0"
    "counter_of (stats old_state) ''100000000000000001'' Gifs = 2"
    "counter_of (stats old_state) ''100000000000000001'' Videos = 0"
    "counter_of (stats old_state) ''100000000000000001'' Links = 0"
    by (simp_all add: counter_of_def old_state_def)
  have h3: "exact_upto (counter_of (stats old_state) (author_id (msg_author files_message)) Images)
     (count_category Images (attachments files_message))"
    by (simp add: a b c exact_upto_def)
  have h4: "exact_upto (counter_of (stats old_state) (author_id (msg_author files_message)) Gifs)
     (count_category Gifs (attachments files_message))"
    by (simp add: a b c exact_upto_def)
  have h5: "exact_upto (counter_of (stats old_state) (author_id (msg_author files_message)) Videos)
     (count_category Videos (attachments files_message))"
    by (simp add: a b c exact_upto_def)
  have h6: "exact_upto (counter_of (stats old_state) (author_id (msg_author files_message)) Links) 1"
    by (simp add: a b exact_upto_def)
  from processMessage_attachments [OF h1 h2 h3 h4 h5 h6] show ?thesis
    using h1 h2 h3 h4 h5 h6 n by (simp add: a b c u)
qed

section \<open>Pages of messages\<close>

subsection \<open>Sums over the store\<close>

lemma processMessage_human:
  assumes "\<not> author_bot (msg_author m)"
  shows "processMessage m st =
     saveStats
       (if linkRegex_test (content m)
        then increment (author_id (msg_author m)) Links
               (foldl (count_attachment (author_id (msg_author m)))
                  (increment (author_id (msg_author m)) Messages (initUserStats m st))
                  (attachments m))
        else foldl (count_attachment (author_id (msg_author m)))
               (increment (author_id (msg_author m)) Messages (initUserStats m st))
               (attachments m))"
  using assms by (cases "attachments m") (simp_all add: processMessage_def Let_def)

lemma total_update:
  "total c (AList.update k v s) = total c s + cnt (field c v) - counter_of s k c"
  by (induction s) (auto simp: total_def counter_of_def)

lemma total_map_entry:
  "total c (AList.map_entry k f s) =
     total c s + (case map_of s k of None \<Rightarrow> 0 | Some r \<Rightarrow> cnt (field c (f r)) - cnt (field c r))"
  by (induction s) (auto simp: total_def)

lemma total_initUserStats:
  "total c (stats (initUserStats m st)) =
     total c (stats st) + counter_of (stats (initUserStats m st)) (author_id (msg_author m)) c
       - counter_of (stats st) (author_id (msg_author m)) c"
  by (simp add: initUserStats_def Let_def total_update counter_of_def update_conv'
      split: option.splits)

lemma total_increment:
  "total c (stats (increment u c' st)) =
     total c (stats st) + counter_of (stats (increment u c' st)) u c - counter_of (stats st) u c"
  by (simp add: total_map_entry counter_of_def map_of_increment increment_def map_of_map_entry
      split: option.splits)

lemma total_count_attachment:
  "total c (stats (count_attachment u st a)) =
     total c (stats st) + counter_of (stats (count_attachment u st a)) u c
       - counter_of (stats st) u c"
  by (simp add: count_attachment_def total_increment split: option.splits)

lemma total_foldl_count_attachment:
  "total c (stats (foldl (count_attachment u) st as)) =
     total c (stats st) + counter_of (stats (foldl (count_attachment u) st as)) u c
       - counter_of (stats st) u c"
proof (induction as arbitrary: st)
  case Nil
  then show ?case by simp
next
  case (Cons a as)
  show ?case
    using Cons.IH [of "count_attachment u st a"] total_count_attachment [of c u st a]
    by simp
qed

lemma total_processMessage_diff:
  "total c (stats (processMessage m st)) =
     total c (stats st) + counter_of (stats (processMessage m st)) (author_id (msg_author m)) c
       - counter_of (stats st) (author_id (msg_author m)) c"
proof (cases "author_bot (msg_author m)")
  case True
  then show ?thesis by (simp add: processMessage_def)
next
  case False
  let ?u = "author_id (msg_author m)"
  let ?st1 = "initUserStats m st"
  let ?st2 = "increment ?u Messages ?st1"
  let ?st3 = "foldl (count_attachment ?u) ?st2 (attachments m)"
  let ?st4 = "if linkRegex_test (content m) then increment ?u Links ?st3 else ?st3"
  have p: "stats (processMessage m st) = stats ?st4"
    using False by (simp add: processMessage_human stats_saveStats)
  have 1: "total c (stats ?st1) = total c (stats st) + counter_of (stats ?st1) ?u c
       - counter_of (stats st) ?u c" by (rule total_initUserStats)
  have 2: "total c (stats ?st2) = total c (stats ?st1) + counter_of (stats ?st2) ?u c
       - counter_of (stats ?st1) ?u c" by (rule total_increment)
  have 3: "total c (stats ?st3) = total c (stats ?st2) + counter_of (stats ?st3) ?u c
       - counter_of (stats ?st2) ?u c" by (rule total_foldl_count_attachment)
  have 4: "total c (stats ?st4) = total c (stats ?st3) + counter_of (stats ?st4) ?u c
       - counter_of (stats ?st3) ?u c" by (simp add: total_increment)
  show ?thesis unfolding p using 1 2 3 4 by linarith
qed

lemma total_Messages_processMessage:
  assumes "json_store (stats st)"
  shows "total Messages (stats (processMessage m st)) =
           total Messages (stats st) + (if author_bot (msg_author m) then 0 else 1)"
proof (cases "author_bot (msg_author m)")
  case True
  then show ?thesis by (simp add: processMessage_def)
next
  case False
  then show ?thesis
    using assms total_processMessage_diff [of Messages m st]
    by (simp add: counter_of_processMessage count_category_Messages)
qed

subsection \<open>Stores without NaN\<close>

lemma numeric_json_record: "numeric r \<Longrightarrow> json_record r"
  by (auto simp: numeric_def json_record_def)

lemma json_store_update:
  "json_store s \<Longrightarrow> json_record v \<Longrightarrow> json_store (AList.update k v s)"
  by (induction s) (auto simp: json_store_def)

lemma json_store_map_entry:
  "json_store s \<Longrightarrow> (\<And>r. map_of s k = Some r \<Longrightarrow> json_record (f r)) \<Longrightarrow>
   json_store (AList.map_entry k f s)"
  by (induction s) (auto simp: json_store_def)

lemma json_store_processMessage:
  assumes "json_store (stats st)"
  shows "json_store (stats (processMessage m st))"
proof (cases "author_bot (msg_author m)")
  case True
  then show ?thesis using assms by (simp add: processMessage_def)
next
  case False
  let ?u = "author_id (msg_author m)"
  let ?P = "\<lambda>s. json_store (stats s) \<and> (\<exists>r. map_of (stats s) ?u = Some r \<and> numeric r)"
  have inc: "?P (increment ?u c s)" if "?P s" for c s
  proof -
    from that obtain r where r: "map_of (stats s) ?u = Some r" "numeric r" by blast
    have "json_store (AList.map_entry ?u (bump c) (stats s))"
      using that r by (intro json_store_map_entry) (auto intro: numeric_json_record numeric_bump)
    then show ?thesis using r by (simp add: map_of_increment numeric_bump) (simp add: increment_def)
  qed
  have att: "?P (count_attachment ?u s a)" if "?P s" for s a
    using that inc by (simp add: count_attachment_def split: option.splits)
  have fold: "?P (foldl (count_attachment ?u) s as)" if "?P s" for s as
    using that by (induction as arbitrary: s) (simp_all add: att)
  have "json_store (stats (initUserStats m st))"
    using assms numeric_init_record_json [OF assms, of m ?u]
    by (auto simp: initUserStats_def Let_def init_record_def split: option.splits
        intro!: json_store_update numeric_json_record)
  then have 1: "?P (initUserStats m st)"
    using numeric_init_record_json [OF assms, of m ?u] by (simp add: map_of_initUserStats)
  have 2: "?P (increment ?u Messages (initUserStats m st))" using 1 by (rule inc)
  have 3: "?P (foldl (count_attachment ?u) (increment ?u Messages (initUserStats m st)) (attachments m))"
    using 2 by (rule fold)
  have "json_store (stats (if linkRegex_test (content m)
      then increment ?u Links (foldl (count_attachment ?u) (increment ?u Messages (initUserStats m st)) (attachments m))
      else foldl (count_attachment ?u) (increment ?u Messages (initUserStats m st)) (attachments m)))"
    using 3 inc [OF 3, of Links] by simp
  then show ?thesis using False by (simp add: processMessage_human stats_saveStats)
qed

lemma process_page_append: "process_page (xs @ ys) st = process_page ys (process_page xs st)"
  by (simp add: process_page_def)

lemma json_store_process_page:
  "json_store (stats st) \<Longrightarrow> json_store (stats (process_page ms st))"
  by (induction ms arbitrary: st) (simp_all add: process_page_def json_store_processMessage)

lemma total_Messages_process_page:
  "json_store (stats st) \<Longrightarrow>
   total Messages (stats (process_page ms st)) =
     total Messages (stats st) + int (length ms) - int (bots ms)"
proof (induction ms arbitrary: st)
  case Nil
  then show ?case by (simp add: process_page_def bots_def)
next
  case (Cons m ms)
  have j: "json_store (stats (processMessage m st))"
    using Cons.prems by (rule json_store_processMessage)
  have "process_page (m # ms) st = process_page ms (processMessage m st)"
    by (simp add: process_page_def)
  then show ?case
    using Cons.IH [OF j] total_Messages_processMessage [OF Cons.prems, of m]
    by (simp add: bots_def)
qed

section \<open>The loop of one channel and the loop over the channels\<close>

subsection \<open>The history of a channel\<close>

lemma dropWhile_distinct_nth:
  assumes "distinct (map f xs)" and "n < length xs"
  shows "dropWhile (\<lambda>x. f x \<noteq> f (xs ! n)) xs = drop n xs"
proof -
  have xs: "xs = take n xs @ xs ! n # drop (Suc n) xs"
    using assms(2) by (simp add: id_take_nth_drop)
  have "f x \<noteq> f (xs ! n)" if "x \<in> set (take n xs)" for x
  proof
    assume eq: "f x = f (xs ! n)"
    from that obtain i where i: "i < n" "x = xs ! i"
      by (auto simp: in_set_conv_nth)
    then have "i = n"
      using nth_eq_iff_index_eq [OF assms(1), of i n] eq assms(2) by simp
    with i show False by simp
  qed
  then have "dropWhile (\<lambda>x. f x \<noteq> f (xs ! n)) (take n xs @ xs ! n # drop (Suc n) xs)
               = xs ! n # drop (Suc n) xs"
    by (simp add: dropWhile_append2)
  then show ?thesis using xs assms(2) by (simp add: Cons_nth_drop_Suc)
qed

lemma older_than_nth:
  assumes "distinct (map msg_id hist)" and "n < length hist"
  shows "older_than hist (Some (msg_id (hist ! n))) = drop (Suc n) hist"
  using dropWhile_distinct_nth [OF assms] by (simp add: older_than_def)

lemma fetch_options_Some: "i \<noteq> [] \<Longrightarrow> fetch_options (Some i) = \<lparr>limit = 100, before = Some i\<rparr>"
  by (simp add: fetch_options_def)

lemma fetch_options_None: "fetch_options None = \<lparr>limit = 100, before = None\<rparr>"
  by (simp add: fetch_options_def)

lemma backfill_250_run:
  assumes fetch: "messages_fetch ch = history_fetch hist"
    and len: "length hist = 250"
    and dist: "distinct (map msg_id hist)"
    and ids: "\<forall>m \<in> set hist. msg_id m \<noteq> []"
  shows "backfillChannel ch st =
           Some (\<lparr>run_terminal = Done, run_calls = 3, run_pages = [100, 100, 50],
                   run_fetchedCount = 250\<rparr>, process_page hist st)"
proof -
  let ?p1 = "take 100 hist"
  let ?p2 = "take 100 (drop 100 hist)"
  let ?p3 = "drop 200 hist"
  let ?st1 = "process_page ?p1 st"
  let ?st2 = "process_page ?p2 ?st1"
  have ne: "?p1 \<noteq> []" "?p2 \<noteq> []" using len by auto
  have l1: "last ?p1 = hist ! 99" using len by (simp add: last_conv_nth [OF ne(1)])
  have l2: "last ?p2 = hist ! 199" using len by (simp add: last_conv_nth [OF ne(2)])
  have i1: "msg_id (hist ! 99) \<noteq> []" using ids len by simp
  have i2: "msg_id (hist ! 199) \<noteq> []" using ids len by simp
  have f1: "messages_fetch ch k (fetch_options None) = Inr ?p1" for k
    by (simp add: fetch history_fetch_def fetch_options_None older_than_def)
  have f2: "messages_fetch ch k (fetch_options (Some (msg_id (hist ! 99)))) = Inr ?p2" for k
    using older_than_nth [OF dist, of 99] len
    by (simp add: fetch history_fetch_def fetch_options_Some [OF i1])
  have f3: "messages_fetch ch k (fetch_options (Some (msg_id (hist ! 199)))) = Inr ?p3" for k
    using older_than_nth [OF dist, of 199] len
    by (simp add: fetch history_fetch_def fetch_options_Some [OF i2])
  have s3: "fetch_loop ch (Suc (Suc 0)) [100, 100] (Some (msg_id (hist ! 199))) 200 ?st2 =
          Some (\<lparr>run_terminal = Done, run_calls = 3, run_pages = [100, 100, 50],
                  run_fetchedCount = 250\<rparr>, process_page ?p3 ?st2)"
    using len by (subst fetch_loop.simps) (simp add: f3)
  have s2: "fetch_loop ch (Suc 0) [100] (Some (msg_id (hist ! 99))) 100 ?st1 =
          fetch_loop ch (Suc (Suc 0)) [100, 100] (Some (msg_id (hist ! 199))) 200 ?st2"
    using len by (subst fetch_loop.simps) (simp add: f2 l2)
  have s1: "fetch_loop ch 0 [] None 0 st =
          fetch_loop ch (Suc 0) [100] (Some (msg_id (hist ! 99))) 100 ?st1"
    using len by (subst fetch_loop.simps) (simp add: f1 l1)
  have "hist = ?p1 @ ?p2 @ ?p3"
    by (metis append_take_drop_id drop_drop numeral_Bit0 add.commute)
  then have "process_page hist st = process_page ?p3 ?st2"
    by (metis process_page_append)
  then show ?thesis by (simp add: backfillChannel_def s1 s2 s3)
qed

lemma fetch_loop_fails_after:
  "fails_after ch calls lastMessageId ps err \<Longrightarrow>
   fetch_loop ch calls pages lastMessageId fetchedCount st =
     Some (\<lparr>run_terminal = Aborted err, run_calls = calls + length ps + 1,
             run_pages = pages @ map length ps,
             run_fetchedCount = fetchedCount + length (concat ps)\<rparr>,
           process_page (concat ps) st)"
proof (induction ps arbitrary: calls lastMessageId pages fetchedCount st)
  case Nil
  then show ?case
    by (subst fetch_loop.simps) (simp add: process_page_def)
next
  case (Cons p ps)
  from Cons.prems have f: "messages_fetch ch calls (fetch_options lastMessageId) = Inr p"
    and l: "100 \<le> length p"
    and rest: "fails_after ch (calls + 1) (Some (msg_id (last p))) ps err"
    by simp_all
  from l have ne: "p \<noteq> []" by auto
  have "fetch_loop ch calls pages lastMessageId fetchedCount st =
          fetch_loop ch (calls + 1) (pages @ [length p]) (Some (msg_id (last p)))
            (fetchedCount + length p) (process_page p st)"
    using l ne by (subst fetch_loop.simps) (simp add: f)
  also have "\<dots> = Some (\<lparr>run_terminal = Aborted err, run_calls = calls + 1 + length ps + 1,
             run_pages = (pages @ [length p]) @ map length ps,
             run_fetchedCount = fetchedCount + length p + length (concat ps)\<rparr>,
           process_page (concat ps) (process_page p st))"
    by (rule Cons.IH [OF rest])
  finally show ?case by (simp add: process_page_append)
qed

lemma backfill_channels_append:
  "backfill_channels (xs @ ys) st =
     (case backfill_channels xs st of
        None \<Rightarrow> None
      | Some (rs, st') \<Rightarrow>
          (case backfill_channels ys st' of
             None \<Rightarrow> None
           | Some (rs', st'') \<Rightarrow> Some (rs @ rs', st'')))"
  by (induction xs arbitrary: st) (auto split: option.splits)


subsection \<open>Counts never go down\<close>

lemma cnt_incr_mono: "cnt v \<le> cnt (incr v)"
  by (cases v) simp_all

lemma cnt_bump_mono: "cnt (field c r) \<le> cnt (field c (bump c' r))"
  by (cases c; cases c') (simp_all add: cnt_incr_mono)

lemma counter_of_increment_mono:
  "counter_of (stats st) u c \<le> counter_of (stats (increment u' c' st)) u c"
  by (auto simp: counter_of_def map_of_increment cnt_bump_mono split: option.splits)

lemma counter_of_count_attachment_mono:
  "counter_of (stats st) u c \<le> counter_of (stats (count_attachment u' st a)) u c"
  by (simp add: count_attachment_def counter_of_increment_mono split: option.splits)

lemma counter_of_foldl_mono:
  "counter_of (stats st) u c \<le> counter_of (stats (foldl (count_attachment u') st as)) u c"
proof (induction as arbitrary: st)
  case Nil
  then show ?case by simp
next
  case (Cons a as)
  show ?case
    using Cons.IH [of "count_attachment u' st a"] counter_of_count_attachment_mono [of st u c u' a]
    by simp
qed

lemma counter_of_initUserStats_mono:
  "counter_of (stats st) u c \<le> counter_of (stats (initUserStats m st)) u c"
  by (cases "map_of (stats st) (author_id (msg_author m))")
     (auto simp: counter_of_def map_of_initUserStats cnt_init_record_Some cnt_init_record_None)

lemma counter_of_processMessage_mono:
  "counter_of (stats st) u c \<le> counter_of (stats (processMessage m st)) u c"
proof (cases "author_bot (msg_author m)")
  case True
  then show ?thesis by (simp add: processMessage_def)
next
  case False
  let ?a = "author_id (msg_author m)"
  let ?st1 = "initUserStats m st"
  let ?st2 = "increment ?a Messages ?st1"
  let ?st3 = "foldl (count_attachment ?a) ?st2 (attachments m)"
  have "counter_of (stats st) u c \<le> counter_of (stats ?st1) u c"
    by (rule counter_of_initUserStats_mono)
  also have "\<dots> \<le> counter_of (stats ?st2) u c" by (rule counter_of_increment_mono)
  also have "\<dots> \<le> counter_of (stats ?st3) u c" by (rule counter_of_foldl_mono)
  also have "\<dots> \<le> counter_of (stats (if linkRegex_test (content m)
        then increment ?a Links ?st3 else ?st3)) u c"
    by (simp add: counter_of_increment_mono)
  finally show ?thesis using False by (simp add: processMessage_human stats_saveStats)
qed

lemma counter_of_process_page_mono:
  "counter_of (stats st) u c \<le> counter_of (stats (process_page ms st)) u c"
proof (induction ms arbitrary: st)
  case Nil
  then show ?case by (simp add: process_page_def)
next
  case (Cons m ms)
  have "counter_of (stats st) u c \<le> counter_of (stats (processMessage m st)) u c"
    by (rule counter_of_processMessage_mono)
  also have "\<dots> \<le> counter_of (stats (process_page ms (processMessage m st))) u c"
    by (rule Cons.IH)
  finally show ?case by (simp add: process_page_def)
qed

lemma fetch_loop_mono:
  assumes "fetch_loop ch calls pages lastMessageId fetchedCount st = Some y"
  shows "counter_of (stats st) u c \<le> counter_of (stats (snd y)) u c"
proof (rule fetch_loop.raw_induct
    [where P = "\<lambda>ch calls pages l n st y.
                  counter_of (stats st) u c \<le> counter_of (stats (snd y)) u c", OF _ assms])
  fix loop ch' calls' pages' l' n' st' y'
  assume IH: "\<And>calls pages l n st b y. loop calls pages l n st b = Some y \<Longrightarrow>
      counter_of (stats b) u c \<le> counter_of (stats (snd y)) u c"
    and step: "(case messages_fetch ch' calls' (fetch_options l') of
      Inl err \<Rightarrow>
        Some (\<lparr>run_terminal = Aborted err, run_calls = calls' + 1, run_pages = pages',
                run_fetchedCount = n'\<rparr>, st')
    | Inr fetchedMessages \<Rightarrow>
        if length fetchedMessages = 0
        then Some (\<lparr>run_terminal = Done, run_calls = calls' + 1, run_pages = pages',
                     run_fetchedCount = n'\<rparr>, st')
        else if length fetchedMessages < 100
        then Some (\<lparr>run_terminal = Done, run_calls = calls' + 1,
                     run_pages = pages' @ [length fetchedMessages],
                     run_fetchedCount = n' + length fetchedMessages\<rparr>,
                   process_page fetchedMessages st')
        else loop ch' (calls' + 1) (pages' @ [length fetchedMessages])
               (Some (msg_id (last fetchedMessages)))
               (n' + length fetchedMessages)
               (process_page fetchedMessages st')) = Some y'"
  show "counter_of (stats st') u c \<le> counter_of (stats (snd y')) u c"
  proof (cases "messages_fetch ch' calls' (fetch_options l')")
    case (Inl err)
    with step show ?thesis by auto
  next
    case (Inr fetched)
    consider "length fetched = 0" | "0 < length fetched" "length fetched < 100"
      | "100 \<le> length fetched" by linarith
    then show ?thesis
    proof cases
      case 1
      with Inr step show ?thesis by auto
    next
      case 2
      with Inr step have "snd y' = process_page fetched st'" by auto
      then show ?thesis by (simp add: counter_of_process_page_mono)
    next
      case 3
      then have "fetched \<noteq> []" by auto
      with 3 Inr step have
        "loop ch' (calls' + 1) (pages' @ [length fetched]) (Some (msg_id (last fetched)))
           (n' + length fetched) (process_page fetched st') = Some y'"
        by auto
      from IH [OF this] counter_of_process_page_mono [of st' u c fetched]
      show ?thesis by linarith
    qed
  qed
qed

lemma backfill_channels_mono:
  "backfill_channels chs st = Some (rs, st') \<Longrightarrow>
   counter_of (stats st) u c \<le> counter_of (stats st') u c"
proof (induction chs arbitrary: st rs)
  case Nil
  then show ?case by simp
next
  case (Cons ch chs)
  show ?case
  proof (cases "channel_type ch = GuildText")
    case False
    with Cons show ?thesis by simp
  next
    case True
    with Cons.prems obtain r st1 rs1 where
      a: "backfillChannel ch st = Some (r, st1)" and b: "backfill_channels chs st1 = Some (rs1, st')"
      by (auto split: option.splits)
    from a have "counter_of (stats st) u c \<le> counter_of (stats st1) u c"
      using fetch_loop_mono [of ch 0 "[]" None 0 st "(r, st1)" u c]
      by (simp add: backfillChannel_def)
    with Cons.IH [OF b] show ?thesis by linarith
  qed
qed

section \<open>The example channels\<close>

lemma number_of_digits_digits: "number_of_digits (digits n) = n"
proof (induction n rule: digits.induct)
  case (1 n)
  show ?case
  proof (cases "n < 10")
    case True
    then show ?thesis
      by (subst digits.simps) (simp add: number_of_digits_def)
  next
    case False
    have m: "(48 + n mod 10) mod 256 = 48 + n mod 10" by simp
    from False "1.IH" have "number_of_digits (digits (n div 10)) = n div 10" by simp
    then show ?thesis using False
      by (subst digits.simps) (simp add: number_of_digits_def m)
  qed
qed

lemma digits_inj: "digits a = digits b \<Longrightarrow> a = b"
  by (metis number_of_digits_digits)

lemma digits_not_Nil: "digits n \<noteq> []"
  by (subst digits.simps) simp

lemma distinct_snowflakes: "distinct (map snowflake [0..<n])"
  by (auto simp: distinct_map inj_on_def snowflake_def dest: digits_inj)

lemma bots_250: "bots history_250 = 50"
  apply (simp add: bots_def history_250_def text_message_def robot_def alice_def filter_map comp_def)
  apply code_simp
  done

section \<open>The claims about the backfill\<close>

text \<open>
  C2: a channel whose history holds exactly 250 messages (with distinct, non-empty
  identifiers) is fetched in exactly 3 calls, in pages of 100, 100 and 50 messages; the
  loop ends in \<open>Done\<close>, and the sum of the messages counters of all users, each of which has
  room for 250 increments, grows by 250 minus the number of messages written by bots.
\<close>
theorem backfill_250_messages:
  assumes "messages_fetch ch = history_fetch hist"
    and "length hist = 250"
    and "distinct (map msg_id hist)"
    and "[] \<notin> set (map msg_id hist)"
    and "json_store (stats st)"
    and "messages_room 250 (stats st)"
  shows "\<exists>st'. backfillChannel ch st =
           Some (\<lparr>run_terminal = Done, run_calls = 3, run_pages = [100, 100, 50],
                   run_fetchedCount = 250\<rparr>, st') \<and>
         total Messages (stats st') = total Messages (stats st) + 250 - int (bots hist)"
proof -
  from assms(4) have ids: "\<forall>m \<in> set hist. msg_id m \<noteq> []" by force
  have "backfillChannel ch st =
           Some (\<lparr>run_terminal = Done, run_calls = 3, run_pages = [100, 100, 50],
                   run_fetchedCount = 250\<rparr>, process_page hist st)"
    using assms(1,2,3) ids by (rule backfill_250_run)
  moreover have "total Messages (stats (process_page hist st)) =
      total Messages (stats st) + 250 - int (bots hist)"
    using total_Messages_process_page [OF assms(5), of hist] assms(2) by simp
  ultimately show ?thesis by blast
qed

lemma msg_id_history_250: "map msg_id history_250 = map snowflake [0..<250]"
  by (simp add: history_250_def text_message_def comp_def)

text \<open>The example channel: 250 messages, 50 of them from a bot, on an empty store.\<close>
theorem backfill_250_messages_witness:
  "messages_fetch channel_250 = history_fetch history_250 \<and>
   length history_250 = 250 \<and>
   distinct (map msg_id history_250) \<and>
   [] \<notin> set (map msg_id history_250) \<and>
   json_store (stats empty_state) \<and>
   messages_room 250 (stats empty_state) \<and>
   bots history_250 = 50 \<and>
   (\<exists>st'. backfillChannel channel_250 empty_state =
           Some (\<lparr>run_terminal = Done, run_calls = 3, run_pages = [100, 100, 50],
                   run_fetchedCount = 250\<rparr>, st') \<and>
          total Messages (stats st') = 200)"
proof -
  have h1: "messages_fetch channel_250 = history_fetch history_250"
    by (simp add: channel_250_def)
  have h2: "length history_250 = 250" by (simp add: history_250_def)
  have h3: "distinct (map msg_id history_250)"
    unfolding msg_id_history_250 by (rule distinct_snowflakes)
  have h4: "[] \<notin> set (map msg_id history_250)"
  proof
    assume "[] \<in> set (map msg_id history_250)"
    then obtain n where "[] = snowflake n" unfolding msg_id_history_250 by auto
    then have "snowflake n = []" by (rule sym)
    then show False by (simp add: snowflake_def digits_not_Nil)
  qed
  have h5: "json_store (stats empty_state)" by (simp add: json_store_def empty_state_def)
  have t: "total Messages (stats empty_state) = 0" by (simp add: total_def empty_state_def)
  have h6: "messages_room 250 (stats empty_state)"
    by (simp add: messages_room_def empty_state_def)
  from backfill_250_messages [OF h1 h2 h3 h4 h5 h6] show ?thesis
    using h1 h2 h3 h4 h5 h6 by (simp add: bots_250 t)
qed

text \<open>
  C8: when a fetch of a text channel fails after some full pages, the loop of that
  channel ends in \<open>Aborted\<close> with the error, in the state reached by the pages processed
  so far; the channels that follow are fetched from that state as after any other
  channel, and no count reached at the abort is lower afterwards.
\<close>
theorem fetch_error_aborts_one_channel:
  assumes "backfill_channels pre st = Some (rs1, st1)"
    and "channel_type ch = GuildText"
    and "fails_after ch 0 None ps err"
  shows "backfillChannel ch st1 =
           Some (\<lparr>run_terminal = Aborted err, run_calls = length ps + 1,
                   run_pages = map length ps, run_fetchedCount = length (concat ps)\<rparr>,
                 process_page (concat ps) st1) \<and>
         backfill_channels (pre @ ch # post) st =
           (case backfill_channels post (process_page (concat ps) st1) of
              None \<Rightarrow> None
            | Some (rs2, st2) \<Rightarrow>
                Some (rs1 @ \<lparr>run_terminal = Aborted err, run_calls = length ps + 1,
                             run_pages = map length ps,
                             run_fetchedCount = length (concat ps)\<rparr> # rs2, st2)) \<and>
         (\<forall>rs2 st2 u c.
            backfill_channels post (process_page (concat ps) st1) = Some (rs2, st2) \<longrightarrow>
            counter_of (stats (process_page (concat ps) st1)) u c \<le> counter_of (stats st2) u c)"
proof -
  have run: "backfillChannel ch st1 =
           Some (\<lparr>run_terminal = Aborted err, run_calls = length ps + 1,
                   run_pages = map length ps, run_fetchedCount = length (concat ps)\<rparr>,
                 process_page (concat ps) st1)"
    using fetch_loop_fails_after [OF assms(3), of "[]" 0 st1]
    by (simp add: backfillChannel_def)
  have "backfill_channels (pre @ ch # post) st =
           (case backfill_channels post (process_page (concat ps) st1) of
              None \<Rightarrow> None
            | Some (rs2, st2) \<Rightarrow>
                Some (rs1 @ \<lparr>run_terminal = Aborted err, run_calls = length ps + 1,
                             run_pages = map length ps,
                             run_fetchedCount = length (concat ps)\<rparr> # rs2, st2))"
    using assms(1,2) run by (simp add: backfill_channels_append split: option.splits)
  then show ?thesis using run backfill_channels_mono by blast
qed

lemma short_channel_run:
  "backfill_channels [short_channel] s =
     Some ([\<lparr>run_terminal = Done, run_calls = 1, run_pages = [1], run_fetchedCount = 1\<rparr>],
           processMessage (text_message ''300000000000000001'' bob ''hi'') s)"
  by (simp add: backfillChannel_def short_channel_def)
     (subst fetch_loop.simps,
      simp add: history_fetch_def fetch_options_def older_than_def process_page_def)

text \<open>A fetch that fails after one full page, followed by a channel that is fetched.\<close>
theorem fetch_error_aborts_one_channel_witness:
  "backfill_channels [] empty_state = Some ([], empty_state) \<and>
   channel_type failing_channel = GuildText \<and>
   fails_after failing_channel 0 None [full_page] (FetchError ''503'') \<and>
   backfill_channels ([] @ failing_channel # [short_channel]) empty_state =
     Some ([\<lparr>run_terminal = Aborted (FetchError ''503''), run_calls = 2, run_pages = [100],
              run_fetchedCount = 100\<rparr>,
            \<lparr>run_terminal = Done, run_calls = 1, run_pages = [1], run_fetchedCount = 1\<rparr>],
           processMessage (text_message ''300000000000000001'' bob ''hi'')
             (process_page full_page empty_state))"
proof -
  have h1: "backfill_channels [] empty_state = Some ([], empty_state)" by simp
  have h2: "channel_type failing_channel = GuildText" by (simp add: failing_channel_def)
  have l: "length full_page = 100" by (simp add: full_page_def)
  have h3: "fails_after failing_channel 0 None [full_page] (FetchError ''503'')"
    by (simp add: failing_channel_def l)
  from fetch_error_aborts_one_channel [OF h1 h2 h3, of "[short_channel]"]
  have e: "backfill_channels ([] @ failing_channel # [short_channel]) empty_state =
      (case backfill_channels [short_channel] (process_page (concat [full_page]) empty_state) of
         None \<Rightarrow> None
       | Some (rs2, st2) \<Rightarrow>
           Some ([] @ \<lparr>run_terminal = Aborted (FetchError ''503''),
                         run_calls = length [full_page] + 1,
                         run_pages = map length [full_page],
                         run_fetchedCount = length (concat [full_page])\<rparr> # rs2, st2))"
    by blast
  have "backfill_channels ([] @ failing_channel # [short_channel]) empty_state =
     Some ([\<lparr>run_terminal = Aborted (FetchError ''503''), run_calls = 2, run_pages = [100],
              run_fetchedCount = 100\<rparr>,
            \<lparr>run_terminal = Done, run_calls = 1, run_pages = [1], run_fetchedCount = 1\<rparr>],
           processMessage (text_message ''300000000000000001'' bob ''hi'')
             (process_page full_page empty_state))"
    unfolding e short_channel_run by (simp add: l)
  with h1 h2 h3 show ?thesis by blast
qed

section \<open>The leaderboard\<close>

subsection \<open>The sort on entries whose counter is a number\<close>

lemma sortCompare_by_count:
  assumes "is_number (field c (entry_val x))" and "is_number (field c (entry_val y))"
  shows "sortCompare (by_count c) y x =
           cnt (field c (entry_val x)) - cnt (field c (entry_val y))"
  using assms
  by (cases "field c (entry_val x)"; cases "field c (entry_val y)")
     (simp_all add: sortCompare_def by_count_def)

lemma sort_insert_insort_key:
  assumes "is_number (field c (entry_val x))"
    and "list_all (\<lambda>e. is_number (field c (entry_val e))) ys"
  shows "sort_insert (by_count c) x ys =
           insort_key (\<lambda>e. - cnt (field c (entry_val e))) x ys"
  using assms(2)
proof (induction ys)
  case Nil
  then show ?case by simp
next
  case (Cons y ys)
  then have y: "is_number (field c (entry_val y))"
    and ys: "list_all (\<lambda>e. is_number (field c (entry_val e))) ys" by simp_all
  show ?case
    using Cons.IH [OF ys] by (simp add: sortCompare_by_count [OF assms(1) y]) 
qed

lemma js_sort_sort_key:
  assumes "list_all (\<lambda>e. is_number (field c (entry_val e))) entries"
  shows "js_sort (by_count c) entries = sort_key (\<lambda>e. - cnt (field c (entry_val e))) entries"
  using assms
proof (induction entries)
  case Nil
  then show ?case by (simp add: js_sort_def)
next
  case (Cons x xs)
  then have x: "is_number (field c (entry_val x))"
    and xs: "list_all (\<lambda>e. is_number (field c (entry_val e))) xs" by simp_all
  let ?f = "\<lambda>e. - cnt (field c (entry_val e))"
  have eq: "js_sort (by_count c) xs = sort_key ?f xs" using xs by (rule Cons.IH)
  have "list_all (\<lambda>e. is_number (field c (entry_val e))) (sort_key ?f xs)"
    using xs by (simp add: list_all_iff)
  from sort_insert_insort_key [OF x this]
  show ?case using eq by (simp add: js_sort_def sort_key_def)
qed

text \<open>
  When every entry has the counter of the category as a number, the leaderboard is a
  rearrangement of the entries of the store in descending order of that counter: an entry
  with a strictly larger count stands strictly earlier, and the entries with one and the
  same count stand in the order in which the store enumerates them.
\<close>

lemma leaderboard_stable_descending:
  assumes "list_all (\<lambda>e. is_number (field c (entry_val e))) entries"
  shows "mset (leaderboard c entries) = mset entries \<and>
         sorted_wrt (\<lambda>a b. cnt (field c (entry_val b)) \<le> cnt (field c (entry_val a)))
           (leaderboard c entries) \<and>
         (\<forall>i j. i < length entries \<longrightarrow> j < length entries \<longrightarrow>
            cnt (field c (entry_val (leaderboard c entries ! j)))
              < cnt (field c (entry_val (leaderboard c entries ! i))) \<longrightarrow> i < j) \<and>
         (\<forall>n. filter (\<lambda>e. cnt (field c (entry_val e)) = n) (leaderboard c entries) =
              filter (\<lambda>e. cnt (field c (entry_val e)) = n) entries)"
proof -
  let ?f = "\<lambda>e. - cnt (field c (entry_val e))"
  have eq: "leaderboard c entries = sort_key ?f entries"
    using assms by (simp add: leaderboard_def js_sort_sort_key)
  have "sorted (map ?f (sort_key ?f entries))" by (rule sorted_sort_key)
  then have s: "sorted_wrt (\<lambda>a b. cnt (field c (entry_val b)) \<le> cnt (field c (entry_val a)))
           (sort_key ?f entries)"
    by (simp add: sorted_map)
  have "filter (\<lambda>e. ?f e = - n) (sort_key ?f entries) = filter (\<lambda>e. ?f e = - n) entries" for n
    by (rule sort_key_stable)
  then have f: "filter (\<lambda>e. cnt (field c (entry_val e)) = n) (sort_key ?f entries) =
              filter (\<lambda>e. cnt (field c (entry_val e)) = n) entries" for n
    by simp
  have o: "i < j" if "i < length entries" "j < length entries"
    and lt: "cnt (field c (entry_val (sort_key ?f entries ! j)))
              < cnt (field c (entry_val (sort_key ?f entries ! i)))" for i j
  proof (rule ccontr)
    assume "\<not> i < j"
    then consider "j = i" | "j < i" by linarith
    then show False
    proof cases
      case 1
      with lt show False by simp
    next
      case 2
      with s that(1) have "cnt (field c (entry_val (sort_key ?f entries ! i)))
          \<le> cnt (field c (entry_val (sort_key ?f entries ! j)))"
        by (simp add: sorted_wrt_iff_nth_less)
      with lt show False by simp
    qed
  qed
  show ?thesis unfolding eq using s f o by (simp add: mset_sort)
qed


text \<open>
  The store with alice (5), bob (5) and carol (3): the first two places go to alice and
  bob, in this order, and carol is last.
\<close>

lemma leaderboard_tie_store:
  "list_all (\<lambda>e. is_number (field Messages (entry_val e))) (Object_entries 0 tie_store) \<and>
   filter (\<lambda>e. cnt (field Messages (entry_val e)) = 5)
     (leaderboard Messages (Object_entries 0 tie_store)) =
     [\<lparr>entry_ref = 0, entry_key = ''100000000000000001'', entry_val = counts ''alice'' (Num 5)\<rparr>,
      \<lparr>entry_ref = 1, entry_key = ''100000000000000002'', entry_val = counts ''bob'' (Num 5)\<rparr>] \<and>
   take 2 (leaderboard Messages (Object_entries 0 tie_store)) =
     [\<lparr>entry_ref = 0, entry_key = ''100000000000000001'', entry_val = counts ''alice'' (Num 5)\<rparr>,
      \<lparr>entry_ref = 1, entry_key = ''100000000000000002'', entry_val = counts ''bob'' (Num 5)\<rparr>] \<and>
   leaderboard Messages (Object_entries 0 tie_store) =
     [\<lparr>entry_ref = 0, entry_key = ''100000000000000001'', entry_val = counts ''alice'' (Num 5)\<rparr>,
      \<lparr>entry_ref = 1, entry_key = ''100000000000000002'', entry_val = counts ''bob'' (Num 5)\<rparr>,
      \<lparr>entry_ref = 2, entry_key = ''100000000000000003'', entry_val = counts ''carol'' (Num 3)\<rparr>]"
proof -
  have h: "list_all (\<lambda>e. is_number (field Messages (entry_val e))) (Object_entries 0 tie_store)"
    by (simp add: tie_store_def counts_def)
  from leaderboard_stable_descending [OF h]
  have "filter (\<lambda>e. cnt (field Messages (entry_val e)) = 5)
          (leaderboard Messages (Object_entries 0 tie_store)) =
        filter (\<lambda>e. cnt (field Messages (entry_val e)) = 5) (Object_entries 0 tie_store)"
    by blast
  also have "\<dots> =
     [\<lparr>entry_ref = 0, entry_key = ''100000000000000001'', entry_val = counts ''alice'' (Num 5)\<rparr>,
      \<lparr>entry_ref = 1, entry_key = ''100000000000000002'', entry_val = counts ''bob'' (Num 5)\<rparr>]"
    by (simp add: tie_store_def counts_def)
  finally have f: "filter (\<lambda>e. cnt (field Messages (entry_val e)) = 5)
     (leaderboard Messages (Object_entries 0 tie_store)) =
     [\<lparr>entry_ref = 0, entry_key = ''100000000000000001'', entry_val = counts ''alice'' (Num 5)\<rparr>,
      \<lparr>entry_ref = 1, entry_key = ''100000000000000002'', entry_val = counts ''bob'' (Num 5)\<rparr>]" .
  have l: "leaderboard Messages (Object_entries 0 tie_store) =
     [\<lparr>entry_ref = 0, entry_key = ''100000000000000001'', entry_val = counts ''alice'' (Num 5)\<rparr>,
      \<lparr>entry_ref = 1, entry_key = ''100000000000000002'', entry_val = counts ''bob'' (Num 5)\<rparr>,
      \<lparr>entry_ref = 2, entry_key = ''100000000000000003'', entry_val = counts ''carol'' (Num 3)\<rparr>]"
    by (simp add: leaderboard_def js_sort_def tie_store_def counts_def sortCompare_def by_count_def)
  have t: "take 2 (leaderboard Messages (Object_entries 0 tie_store)) =
     [\<lparr>entry_ref = 0, entry_key = ''100000000000000001'', entry_val = counts ''alice'' (Num 5)\<rparr>,
      \<lparr>entry_ref = 1, entry_key = ''100000000000000002'', entry_val = counts ''bob'' (Num 5)\<rparr>]"
    unfolding l by simp
  from h f t l show ?thesis by blast
qed

text \<open>
  C9: the leaderboard is to be in descending order of the counter. On a store with a
  record of an older snapshot it is not: bob has no messages counter, \<open>initUserStats\<close>
  has not repaired his record, both comparisons with bob give \<open>NaN\<close>, and the sort leaves
  carol with 5 messages behind alice with 3.
\<close>
theorem leaderboard_missing_counter:
  "leaderboard Messages (Object_entries 0 drift_store) =
     [\<lparr>entry_ref = 0, entry_key = ''100000000000000001'', entry_val = counts ''alice'' (Num 3)\<rparr>,
      \<lparr>entry_ref = 1, entry_key = ''100000000000000002'', entry_val = counts ''bob'' Undefined\<rparr>,
      \<lparr>entry_ref = 2, entry_key = ''100000000000000003'', entry_val = counts ''carol'' (Num 5)\<rparr>]"
  by (simp add: leaderboard_def js_sort_def drift_store_def counts_def sortCompare_def by_count_def)

subsection \<open>Rank labels\<close>

lemma digit_chars:
  "char_of (48 :: nat) = CHR ''0''" "char_of (49 :: nat) = CHR ''1''"
  "char_of (50 :: nat) = CHR ''2''" "char_of (51 :: nat) = CHR ''3''"
  "char_of (52 :: nat) = CHR ''4''" "char_of (53 :: nat) = CHR ''5''"
  "char_of (54 :: nat) = CHR ''6''" "char_of (55 :: nat) = CHR ''7''"
  "char_of (56 :: nat) = CHR ''8''" "char_of (57 :: nat) = CHR ''9''"
  by code_simp+

lemma indexOf_from_fresh:
  "list_all (\<lambda>r. r < x) rs \<Longrightarrow> indexOf_from i rs x = - 1"
  by (induction rs arbitrary: i) auto

lemma indexOf_fresh:
  "list_all (\<lambda>e. entry_ref e < heap) arr \<Longrightarrow> indexOf arr (heap + k) = - 1"
  by (rule indexOf_from_fresh [of "heap + k" "map entry_ref arr" 0, folded indexOf_def])
     (auto simp: list_all_iff)

lemma render_line_rank:
  assumes "list_all (\<lambda>e. entry_ref e < heap) topTen"
  shows "render_line g c topTen (heap + k) e =
           ''0. **'' @ resolve_name g (entry_key e) (entry_val e) @ ''** - `'' @
           jsnum_to_string (field c (entry_val e)) @ ''`'' @ [CHR 0x0A]"
  by (simp add: render_line_def indexOf_fresh [OF assms] int_to_string_def digits.simps
      digit_chars)

text \<open>
  C1: the rank label of a line. On the store with alice (5 messages) and bob (3) both
  lines of the messages list carry the label 0, where the ranks are 1 and 2.
\<close>
theorem getTopTenUsers_rank_labels:
  "getTopTenUsers (leaderboard Messages (Object_entries 0 two_store)) Messages plain_guild 2 =
     ''0. **alice** - `5`'' @ [CHR 0x0A] @ ''0. **bob** - `3`'' @ [CHR 0x0A]"
  by (simp add: getTopTenUsers_def leaderboard_def js_sort_def two_store_def counts_def
      sortCompare_def by_count_def render_line_def indexOf_def resolve_name_def plain_guild_def
      int_to_string_def digits.simps digit_chars)

section \<open>The handler and the commands\<close>
























end
